theory Spec2Isabelle
  imports Complex_Main "HOL-Library.Word"
begin

section \<open>Data model (src/types.ts)\<close>

text \<open>
  The interfaces of \<^verbatim>\<open>types.ts\<close> as records. An optional field (\<^verbatim>\<open>quiz?\<close>,
  \<^verbatim>\<open>videoUrl?\<close>, ...) is an \<open>option\<close>; an array is a list; option and question indices
  are natural numbers. Field names carry the interface as a prefix where two interfaces share
  a name (\<^verbatim>\<open>id\<close>, \<^verbatim>\<open>title\<close>, \<^verbatim>\<open>quiz\<close>, ...).
\<close>

record QuizQuestion =
  question :: string
  options :: "string list"
  correctAnswers :: "nat list"

record LessonStep =
  step_id :: string
  step_title :: string
  explanation :: string
  keyPoints :: "string list"
  imagePrompt :: string
  step_imageUrl :: "string option"
  audioData :: "string option"

record InteractiveLesson =
  il_id :: string
  topic :: string
  steps :: "LessonStep list"
  il_quiz :: "QuizQuestion list"

datatype lesson_type = Text | Video | Quiz | Interactive

record Lesson =
  lesson_id :: string
  lesson_title :: string
  content :: string
  lesson_type :: lesson_type
  videoUrl :: "string option"
  lesson_imageUrl :: "string option"
  lesson_quiz :: "QuizQuestion list option"
  interactiveData :: "InteractiveLesson option"

record Module =
  module_id :: string
  module_title :: string
  lessons :: "Lesson list"

record Course =
  course_id :: string
  course_title :: string
  description :: string
  thumbnail :: "string option"
  modules :: "Module list"
  teaserVideoUrl :: "string option"


section \<open>Learner-side quiz engine (InteractivePlayer.tsx, LMSPlayer.tsx)\<close>

text \<open>
  \<^verbatim>\<open>userAnswers\<close> is a \<^verbatim>\<open>Record<number, number[]>\<close>: a map from question index to the list
  of selected option indices. \<^verbatim>\<open>prev[qIdx] || []\<close> reads a missing entry as the empty list
  (an array, even an empty one, is truthy).
\<close>

type_synonym answers_map = "nat \<rightharpoonup> nat list"

definition selected :: "answers_map \<Rightarrow> nat \<Rightarrow> nat list" where
  "selected prev qIdx = (case prev qIdx of None \<Rightarrow> [] | Some current \<Rightarrow> current)"

text \<open>
  \<^verbatim>\<open>toggleAnswer\<close> of InteractivePlayer.tsx (lines 88-97). The first argument is the
  component's \<^verbatim>\<open>quizSubmitted\<close> flag: once it is set the handler returns at once.
\<close>

definition toggleAnswer :: "bool \<Rightarrow> answers_map \<Rightarrow> nat \<Rightarrow> nat \<Rightarrow> answers_map" where
  "toggleAnswer quizSubmitted prev qIdx oIdx =
     (if quizSubmitted then prev
      else let current = selected prev qIdx;
               updated = (if oIdx \<in> set current
                          then filter (\<lambda>i. i \<noteq> oIdx) current
                          else current @ [oIdx])
           in prev(qIdx \<mapsto> updated))"

text \<open>
  \<^verbatim>\<open>toggleAnswer\<close> of LMSPlayer.tsx (lines 90-99): the same body, guarded by
  \<^verbatim>\<open>showResults\<close>.
\<close>

definition toggleAnswer_LMS :: "bool \<Rightarrow> answers_map \<Rightarrow> nat \<Rightarrow> nat \<Rightarrow> answers_map" where
  "toggleAnswer_LMS showResults prev qIdx oIdx =
     (if showResults then prev
      else let current = selected prev qIdx;
               updated = (if oIdx \<in> set current
                          then filter (\<lambda>i. i \<noteq> oIdx) current
                          else current @ [oIdx])
           in prev(qIdx \<mapsto> updated))"

text \<open>
  The answers the player holds after a sequence of clicks \<open>(qIdx, oIdx)\<close> on options, made
  before the quiz is submitted: \<^verbatim>\<open>userAnswers\<close> starts as \<^verbatim>\<open>{}\<close> and only
  \<^verbatim>\<open>toggleAnswer\<close> changes it.
\<close>

definition answers_after :: "(nat \<times> nat) list \<Rightarrow> answers_map" where
  "answers_after clicks =
     foldl (\<lambda>prev (qIdx, oIdx). toggleAnswer False prev qIdx oIdx) Map.empty clicks"

text \<open>
  The test in the body of the \<^verbatim>\<open>reduce\<close> of InteractivePlayer.tsx (lines 102-103):
  equal lengths, and every selected index is among the correct ones.
\<close>

definition isCorrect :: "nat list \<Rightarrow> QuizQuestion \<Rightarrow> bool" where
  "isCorrect answers q \<longleftrightarrow>
     length answers = length (correctAnswers q) \<and>
     list_all (\<lambda>a. a \<in> set (correctAnswers q)) answers"

text \<open>\<^verbatim>\<open>Array.prototype.reduce\<close> with the callback's index argument.\<close>

fun reduce_idx :: "('b \<Rightarrow> 'a \<Rightarrow> nat \<Rightarrow> 'b) \<Rightarrow> 'a list \<Rightarrow> nat \<Rightarrow> 'b \<Rightarrow> 'b" where
  "reduce_idx f [] idx acc = acc"
| "reduce_idx f (x # xs) idx acc = reduce_idx f xs (Suc idx) (f acc x idx)"

text \<open>
  \<^verbatim>\<open>score\<close> of InteractivePlayer.tsx (lines 99-106): zero until the quiz is submitted, then
  one point for every question whose selection passes \<open>isCorrect\<close>.
\<close>

definition score :: "bool \<Rightarrow> QuizQuestion list \<Rightarrow> answers_map \<Rightarrow> nat" where
  "score quizSubmitted quiz userAnswers =
     (if quizSubmitted
      then reduce_idx (\<lambda>acc q idx.
             let answers = selected userAnswers idx
             in acc + (if isCorrect answers q then 1 else 0)) quiz 0 0
      else 0)"


section \<open>Authoring-side content tree (components/CourseBuilder.tsx)\<close>

text \<open>
  What a handler can raise. Reading a property of \<^verbatim>\<open>undefined\<close> is a \<^verbatim>\<open>TypeError\<close>; the
  other two are raised by the platform while decoding audio (see below); a failed call of the
  generative service is a \<open>ServiceError\<close>.
\<close>

datatype js_error = TypeError | RangeError | NotSupportedError | ServiceError

text \<open>\<^verbatim>\<open>Array.prototype.map\<close> with a callback that may throw: the first throw ends the map.\<close>

fun map_err :: "('a \<Rightarrow> 'e + 'b) \<Rightarrow> 'a list \<Rightarrow> 'e + 'b list" where
  "map_err f [] = Inr []"
| "map_err f (x # xs) =
     (case f x of
        Inl e \<Rightarrow> Inl e
      | Inr y \<Rightarrow> (case map_err f xs of Inl e \<Rightarrow> Inl e | Inr ys \<Rightarrow> Inr (y # ys)))"

text \<open>
  The callback of the inner \<^verbatim>\<open>m.lessons.map\<close> of \<^verbatim>\<open>toggleQuizAnswer\<close> (lines 208-220).
  \<^verbatim>\<open>l.quiz\<close> is truthy for every array, also the empty one, so only an absent quiz skips
  the branch. \<^verbatim>\<open>updatedQuiz[qIdx]\<close> is \<^verbatim>\<open>undefined\<close> out of range, and reading its
  \<^verbatim>\<open>correctAnswers\<close> throws.
\<close>

definition toggleQuizAnswer_lesson :: "string \<Rightarrow> nat \<Rightarrow> nat \<Rightarrow> Lesson \<Rightarrow> js_error + Lesson" where
  "toggleQuizAnswer_lesson lessonId qIdx oIdx l =
     (case lesson_quiz l of
        Some lquiz \<Rightarrow>
          if lesson_id l = lessonId then
            (let updatedQuiz = lquiz in
             if qIdx < length updatedQuiz then
               (let q = updatedQuiz ! qIdx;
                    currentAnswers = correctAnswers q;
                    newAnswers = (if oIdx \<in> set currentAnswers
                                  then filter (\<lambda>idx. idx \<noteq> oIdx) currentAnswers
                                  else currentAnswers @ [oIdx])
                in Inr (l\<lparr>lesson_quiz :=
                           Some (updatedQuiz[qIdx := q\<lparr>correctAnswers := newAnswers\<rparr>])\<rparr>))
             else Inl TypeError)
          else Inr l
      | None \<Rightarrow> Inr l)"

definition toggleQuizAnswer_module ::
    "string \<Rightarrow> string \<Rightarrow> nat \<Rightarrow> nat \<Rightarrow> Module \<Rightarrow> js_error + Module" where
  "toggleQuizAnswer_module moduleId lessonId qIdx oIdx m =
     (if module_id m = moduleId
      then (case map_err (toggleQuizAnswer_lesson lessonId qIdx oIdx) (lessons m) of
              Inl e \<Rightarrow> Inl e
            | Inr ls \<Rightarrow> Inr (m\<lparr>lessons := ls\<rparr>))
      else Inr m)"

text \<open>
  \<^verbatim>\<open>toggleQuizAnswer\<close> (lines 202-223) on the component's \<^verbatim>\<open>course\<close> state
  (\<open>None\<close> is \<^verbatim>\<open>null\<close>). A throw inside the maps leaves the state as it was and is
  returned as \<open>Inl\<close>.
\<close>

definition toggleQuizAnswer ::
    "Course option \<Rightarrow> string \<Rightarrow> string \<Rightarrow> nat \<Rightarrow> nat \<Rightarrow> js_error + Course option" where
  "toggleQuizAnswer course moduleId lessonId qIdx oIdx =
     (case course of
        None \<Rightarrow> Inr None
      | Some c \<Rightarrow>
          (case map_err (toggleQuizAnswer_module moduleId lessonId qIdx oIdx) (modules c) of
             Inl e \<Rightarrow> Inl e
           | Inr ms \<Rightarrow> Inr (Some (c\<lparr>modules := ms\<rparr>))))"

text \<open>\<^verbatim>\<open>addQuizQuestion\<close> (lines 225-242); \<^verbatim>\<open>l.quiz || []\<close> starts an absent quiz empty.\<close>

definition newQuestion :: QuizQuestion where
  "newQuestion =
     \<lparr>question = ''New Question'', options = [''Option 1'', ''Option 2''], correctAnswers = [0]\<rparr>"

definition addQuizQuestion :: "Course option \<Rightarrow> string \<Rightarrow> string \<Rightarrow> Course option" where
  "addQuizQuestion course moduleId lessonId =
     (case course of
        None \<Rightarrow> None
      | Some c \<Rightarrow>
          Some (c\<lparr>modules :=
            map (\<lambda>m. if module_id m = moduleId
                      then m\<lparr>lessons :=
                             map (\<lambda>l. if lesson_id l = lessonId
                                       then l\<lparr>lesson_quiz :=
                                              Some ((case lesson_quiz l of None \<Rightarrow> [] | Some lquiz \<Rightarrow> lquiz)
                                                    @ [newQuestion])\<rparr>
                                       else l) (lessons m)\<rparr>
                      else m) (modules c)\<rparr>))"

text \<open>
  Views of a course used to state the authoring properties: the correct-answer sets of every
  question, by position, and the course with every \<^verbatim>\<open>correctAnswers\<close> array emptied (all
  that is not a correct-answer array).
\<close>

definition lesson_sets :: "Lesson \<Rightarrow> nat set list option" where
  "lesson_sets l = map_option (map (\<lambda>q. set (correctAnswers q))) (lesson_quiz l)"

definition module_sets :: "Module \<Rightarrow> nat set list option list" where
  "module_sets m = map lesson_sets (lessons m)"

definition answer_sets :: "Course \<Rightarrow> nat set list option list list" where
  "answer_sets c = map module_sets (modules c)"

definition without_answers_lesson :: "Lesson \<Rightarrow> Lesson" where
  "without_answers_lesson l =
     l\<lparr>lesson_quiz := map_option (map (\<lambda>q. q\<lparr>correctAnswers := []\<rparr>)) (lesson_quiz l)\<rparr>"

definition without_answers_module :: "Module \<Rightarrow> Module" where
  "without_answers_module m = m\<lparr>lessons := map without_answers_lesson (lessons m)\<rparr>"

definition without_answers :: "Course \<Rightarrow> Course" where
  "without_answers c = c\<lparr>modules := map without_answers_module (modules c)\<rparr>"

text \<open>
  The question index is in range for the quiz of every lesson the two ids address: what the
  editor guarantees, since it passes the index of a question it has just rendered.
\<close>

definition question_in_range :: "Course \<Rightarrow> string \<Rightarrow> string \<Rightarrow> nat \<Rightarrow> bool" where
  "question_in_range c moduleId lessonId qIdx \<longleftrightarrow>
     (\<forall>m \<in> set (modules c). module_id m = moduleId \<longrightarrow>
        (\<forall>l \<in> set (lessons m). lesson_id l = lessonId \<longrightarrow>
           (case lesson_quiz l of None \<Rightarrow> True | Some lquiz \<Rightarrow> qIdx < length lquiz)))"

text \<open>A small course for the concrete instances below: one module, one quiz lesson.\<close>

definition example_question :: QuizQuestion where
  "example_question = \<lparr>question = ''q'', options = [''a'', ''b'', ''c''], correctAnswers = [0, 2]\<rparr>"

definition example_lesson :: "lesson_type \<Rightarrow> string option \<Rightarrow> QuizQuestion list option \<Rightarrow> Lesson" where
  "example_lesson ty url lquiz =
     \<lparr>lesson_id = ''l1'', lesson_title = ''L'', content = [], lesson_type = ty,
      videoUrl = url, lesson_imageUrl = None, lesson_quiz = lquiz, interactiveData = None\<rparr>"

definition example_course :: "Lesson \<Rightarrow> Course" where
  "example_course l =
     \<lparr>course_id = ''c'', course_title = ''t'', description = ''d'', thumbnail = None,
      modules = [\<lparr>module_id = ''m1'', module_title = ''M'', lessons = [l]\<rparr>],
      teaserVideoUrl = None\<rparr>"


section \<open>Audio decoding (geminiService: decodeAudioData)\<close>

unbundle bit_operations_syntax

text \<open>
  The numbers of the program are IEEE doubles. Those that the modelled code computes are
  small integers, quotients of two such integers, and 16-bit integers divided by \<open>2 ^ 15\<close>;
  they are modelled as exact rationals. A 16-bit integer divided by \<open>2 ^ 15\<close> is exact in a
  double and in the 32-bit float of a \<^verbatim>\<open>Float32Array\<close>, so the decoded samples are the
  stored values.
\<close>

type_synonym byte = "8 word"

text \<open>An element of a \<^verbatim>\<open>Float32Array\<close>: a value, or \<^verbatim>\<open>NaN\<close> (\<^verbatim>\<open>undefined / 32768.0\<close>).\<close>

datatype sample = Sample rat | NaN

text \<open>
  \<^verbatim>\<open>new Int16Array(data.buffer)\<close>: a view of the bytes as 16-bit signed integers in the
  platform's byte order, little-endian on the platforms the program runs on. The constructor
  throws a \<^verbatim>\<open>RangeError\<close> when the byte length is odd (checked in \<open>decodeAudioData\<close> below).
  Reading a typed array out of range yields \<^verbatim>\<open>undefined\<close>.
\<close>

definition int16At :: "byte list \<Rightarrow> nat \<Rightarrow> int" where
  "int16At data k =
     sint (push_bit 8 (ucast (data ! (2 * k + 1))) OR ucast (data ! (2 * k)) :: 16 word)"

definition dataInt16 :: "byte list \<Rightarrow> nat \<Rightarrow> int option" where
  "dataInt16 data k = (if k < length data div 2 then Some (int16At data k) else None)"

text \<open>\<^verbatim>\<open>x / 32768.0\<close>, for \<open>x\<close> read from the view.\<close>

definition div_32768 :: "int option \<Rightarrow> sample" where
  "div_32768 x = (case x of None \<Rightarrow> NaN | Some v \<Rightarrow> Sample (of_int v / 32768))"

text \<open>\<^verbatim>\<open>a[i] = v\<close> on a typed array: a write out of range is ignored.\<close>

definition typed_array_set :: "'a list \<Rightarrow> nat \<Rightarrow> 'a \<Rightarrow> 'a list" where
  "typed_array_set a i v = (if i < length a then a[i := v] else a)"

record AudioBuffer =
  buf_sampleRate :: nat
  channelData :: "sample list list"

text \<open>
  \<^verbatim>\<open>ctx.createBuffer(numberOfChannels, length, sampleRate)\<close> of the Web Audio API. The
  \<^verbatim>\<open>length\<close> argument is an \<^verbatim>\<open>unsigned long\<close>: a fractional number is truncated. The call
  throws \<^verbatim>\<open>NotSupportedError\<close> when the number of channels or the length is zero; otherwise
  the buffer holds \<open>numberOfChannels\<close> zero-filled channels of \<open>length\<close> frames. (The upper
  limits on channels, length and sample rate depend on the browser and are not modelled; the
  callers pass one channel at 24000 Hz.)
\<close>

definition createBuffer :: "nat \<Rightarrow> rat \<Rightarrow> nat \<Rightarrow> js_error + AudioBuffer" where
  "createBuffer numberOfChannels len sampleRate =
     (let frames = nat \<lfloor>len\<rfloor>
      in if numberOfChannels = 0 \<or> frames = 0 then Inl NotSupportedError
         else Inr \<lparr>buf_sampleRate = sampleRate,
                   channelData = replicate numberOfChannels (replicate frames (Sample 0))\<rparr>)"

text \<open>
  The inner loop of \<^verbatim>\<open>decodeAudioData\<close> (lines 86-88):
  \<^verbatim>\<open>for (let i = 0; i < frameCount; i++) channelData[i] = dataInt16[i * numChannels + channel] / 32768.0\<close>.
  \<open>frameCount\<close> is the number, not truncated, that line 81 computes.
\<close>

function frame_loop :: "byte list \<Rightarrow> nat \<Rightarrow> nat \<Rightarrow> rat \<Rightarrow> nat \<Rightarrow> sample list \<Rightarrow> sample list" where
  "frame_loop data numChannels channel frameCount i cd =
     (if of_nat i < frameCount
      then frame_loop data numChannels channel frameCount (Suc i)
             (typed_array_set cd i (div_32768 (dataInt16 data (i * numChannels + channel))))
      else cd)"
  by pat_completeness auto
termination
proof (relation "measure (\<lambda>(data, numChannels, channel, frameCount, i, cd). nat \<lceil>frameCount\<rceil> - i)")
  show "wf (measure (\<lambda>(data, numChannels, channel, frameCount, i, cd). nat \<lceil>frameCount :: rat\<rceil> - i))"
    by simp
next
  fix data :: "byte list" and numChannels channel :: nat and frameCount :: rat and i :: nat
    and cd :: "sample list"
  assume "of_nat i < frameCount"
  then have "int i < \<lceil>frameCount\<rceil>"
    by (simp add: less_ceiling_iff)
  then show "((data, numChannels, channel, frameCount, Suc i,
        typed_array_set cd i (div_32768 (dataInt16 data (i * numChannels + channel)))),
       (data, numChannels, channel, frameCount, i, cd))
      \<in> measure (\<lambda>(data, numChannels, channel, frameCount, i, cd). nat \<lceil>frameCount\<rceil> - i)"
    by simp
qed

text \<open>
  The outer loop (lines 84-89): \<^verbatim>\<open>for (let channel = 0; channel < numChannels; channel++)\<close>,
  filling the array that \<^verbatim>\<open>buffer.getChannelData(channel)\<close> returns.
\<close>

function channel_loop :: "byte list \<Rightarrow> nat \<Rightarrow> rat \<Rightarrow> nat \<Rightarrow> sample list list \<Rightarrow> sample list list" where
  "channel_loop data numChannels frameCount channel chs =
     (if channel < numChannels
      then channel_loop data numChannels frameCount (Suc channel)
             (chs[channel := frame_loop data numChannels channel frameCount 0 (chs ! channel)])
      else chs)"
  by pat_completeness auto
termination
  by (relation "measure (\<lambda>(data, numChannels, frameCount, channel, chs). numChannels - channel)") auto

text \<open>
  \<^verbatim>\<open>decodeAudioData(data, ctx, sampleRate, numChannels)\<close> (lines 74-91). The context is
  represented by \<open>createBuffer\<close>. \<^verbatim>\<open>data\<close> comes from \<^verbatim>\<open>decodeBase64\<close>, a fresh array that
  spans its whole buffer, so \<^verbatim>\<open>data.buffer\<close> holds exactly the bytes of \<^verbatim>\<open>data\<close>.
\<close>

definition decodeAudioData :: "byte list \<Rightarrow> nat \<Rightarrow> nat \<Rightarrow> js_error + AudioBuffer" where
  "decodeAudioData data sampleRate numChannels =
     (if odd (length data) then Inl RangeError
      else let frameCount = of_nat (length data div 2) / of_nat numChannels
           in case createBuffer numChannels frameCount sampleRate of
                Inl e \<Rightarrow> Inl e
              | Inr buffer \<Rightarrow>
                  Inr (buffer\<lparr>channelData :=
                         channel_loop data numChannels frameCount 0 (channelData buffer)\<rparr>))"


section \<open>Playback controller (InteractivePlayer.tsx)\<close>

text \<open>
  The audio state of the player. \<^verbatim>\<open>AudioBufferSourceNode\<close>s are numbered in the order the
  component creates them. \<open>sounding\<close> is the platform's side: the nodes that have been started
  and have neither been stopped nor reached their end. \<open>awaiting\<close> holds the calls of
  \<^verbatim>\<open>toggleAudio\<close> suspended at \<^verbatim>\<open>await decodeAudioData(...)\<close>, each with the outcome its
  promise settles to (the decoding itself runs before the suspension).
\<close>

record player_state =
  isPlaying :: bool
  audioSourceRef :: "nat option"
  audioContextRef :: bool
  created :: nat
  sounding :: "nat set"
  awaiting :: "(js_error + AudioBuffer) list"

definition initial_player :: player_state where
  "initial_player =
     \<lparr>isPlaying = False, audioSourceRef = None, audioContextRef = False, created = 0,
      sounding = {}, awaiting = []\<rparr>"

text \<open>
  \<^verbatim>\<open>stopAudio\<close> (lines 32-37). \<^verbatim>\<open>stop()\<close> on a node that was started silences it and does
  nothing, without raising, if it is silent already; every node the ref holds was started
  before it was stored (lines 80-81).
\<close>

definition stopAudio :: "player_state \<Rightarrow> player_state" where
  "stopAudio st =
     (case audioSourceRef st of
        Some source \<Rightarrow> st\<lparr>sounding := sounding st - {source}, audioSourceRef := None\<rparr>
      | None \<Rightarrow> st)"

text \<open>
  \<^verbatim>\<open>toggleAudio\<close> (lines 55-86) up to its \<^verbatim>\<open>await\<close>. The argument is \<open>None\<close> when the
  current step has no \<^verbatim>\<open>audioData\<close>, and otherwise the outcome of
  \<^verbatim>\<open>decodeAudioData(decodeBase64(audioData), ctx, 24000, 1)\<close>.
\<close>

definition toggleAudio_call :: "player_state \<Rightarrow> (js_error + AudioBuffer) option \<Rightarrow> player_state" where
  "toggleAudio_call st audio =
     (if isPlaying st then (stopAudio st)\<lparr>isPlaying := False\<rparr>
      else case audio of
             None \<Rightarrow> st
           | Some outcome \<Rightarrow> st\<lparr>audioContextRef := True, awaiting := awaiting st @ [outcome]\<rparr>)"

text \<open>
  The rest of \<^verbatim>\<open>toggleAudio\<close> (lines 74-85), run when the awaited promise settles: a
  rejection is caught and logged; otherwise the current clip is stopped, then a new node is
  created, started and stored.
\<close>

definition toggleAudio_resume :: "player_state \<Rightarrow> js_error + AudioBuffer \<Rightarrow> player_state" where
  "toggleAudio_resume st outcome =
     (case outcome of
        Inl err \<Rightarrow> st
      | Inr buffer \<Rightarrow>
          (let st1 = stopAudio st;
               source = created st1
           in st1\<lparr>created := Suc source,
                  sounding := insert source (sounding st1),
                  audioSourceRef := Some source,
                  isPlaying := True\<rparr>))"

text \<open>
  What can happen to the player: a click on the audio button; the oldest suspended
  \<^verbatim>\<open>toggleAudio\<close> resumes; a started node fires \<^verbatim>\<open>ended\<close> (it is silent from then on, and
  the \<^verbatim>\<open>onended\<close> handler of line 79 clears the flag); the step or the quiz view changes
  (the effect of lines 25-30: clear the flag, stop the audio).
\<close>

datatype player_event =
    ToggleAudio "(js_error + AudioBuffer) option"
  | DecodeSettled
  | SourceEnded nat
  | StepChanged

fun player_step :: "player_state \<Rightarrow> player_event \<Rightarrow> player_state" where
  "player_step st (ToggleAudio audio) = toggleAudio_call st audio"
| "player_step st DecodeSettled =
     (case awaiting st of
        [] \<Rightarrow> st
      | outcome # rest \<Rightarrow> toggleAudio_resume (st\<lparr>awaiting := rest\<rparr>) outcome)"
| "player_step st (SourceEnded source) =
     (if source < created st
      then st\<lparr>sounding := sounding st - {source}, isPlaying := False\<rparr>
      else st)"
| "player_step st StepChanged = stopAudio (st\<lparr>isPlaying := False\<rparr>)"

definition player_run :: "player_event list \<Rightarrow> player_state" where
  "player_run events = foldl player_step initial_player events"

text \<open>The invariant: only the node in \<^verbatim>\<open>audioSourceRef\<close> can be sounding, and it was created.\<close>

definition exclusive :: "player_state \<Rightarrow> bool" where
  "exclusive st \<longleftrightarrow>
     (\<forall>source \<in> sounding st. audioSourceRef st = Some source) \<and>
     (\<forall>source \<in> sounding st. source < created st)"


section \<open>Generation orchestrator, course mode (CourseBuilder.tsx)\<close>

text \<open>
  The generative service is outside the program. Its functions are parameters of the model;
  a call that throws returns \<open>Inl\<close>. \<^verbatim>\<open>generateLessonContent(title, kind)\<close> is split by its
  \<^verbatim>\<open>kind\<close> argument, which fixes the type of the result. The two per-step calls of the
  interactive mode also receive the index of the step, so that the same prompt may succeed
  for one step and fail for another.
\<close>

record services =
  generateCourseTeaser :: "string \<Rightarrow> js_error + string"
  generateLessonContent_text :: "string \<Rightarrow> js_error + string"
  generateLessonContent_quiz :: "string \<Rightarrow> js_error + QuizQuestion list"
  generateInteractiveLessonStructure :: "string \<Rightarrow> js_error + InteractiveLesson"
  generateIllustration :: "nat \<Rightarrow> string \<Rightarrow> js_error + string"
  generateNarration :: "nat \<Rightarrow> string \<Rightarrow> js_error + string"

text \<open>
  A call of \<^verbatim>\<open>generateLessonBody\<close> suspended at its \<^verbatim>\<open>await\<close>: the variables its closure
  holds. \<open>req_course\<close> is the \<^verbatim>\<open>course\<close> of the render in which the call was made.
\<close>

record gen_request =
  req_course :: Course
  req_moduleId :: string
  req_lessonId :: string
  req_lesson :: Lesson

text \<open>
  The state of the builder that generation touches. \<open>in_flight\<close> lists the suspended calls,
  that is, the service requests that have been issued and have not settled.
\<close>

record builder_state =
  bs_course :: "Course option"
  generatingLessonIds :: "string set"
  loadingStatus :: string
  in_flight :: "gen_request list"

text \<open>
  \<^verbatim>\<open>course.modules.find(m => m.id === moduleId)?.lessons.find(l => l.id === lessonId)\<close>
  (line 139, and line 354 for the lesson shown in the editor).
\<close>

definition find_lesson :: "Course \<Rightarrow> string \<Rightarrow> string \<Rightarrow> Lesson option" where
  "find_lesson c moduleId lessonId =
     (case find (\<lambda>m. module_id m = moduleId) (modules c) of
        None \<Rightarrow> None
      | Some m \<Rightarrow> find (\<lambda>l. lesson_id l = lessonId) (lessons m))"

text \<open>
  \<^verbatim>\<open>generateLessonBody\<close> (lines 137-189) up to the \<^verbatim>\<open>await\<close> of the service call: the two
  early returns, the insertion into \<^verbatim>\<open>generatingLessonIds\<close>, the status line, and the
  request. There is no test of \<^verbatim>\<open>generatingLessonIds\<close>.
\<close>

definition generateLessonBody_call :: "builder_state \<Rightarrow> string \<Rightarrow> string \<Rightarrow> builder_state" where
  "generateLessonBody_call st moduleId lessonId =
     (case bs_course st of
        None \<Rightarrow> st
      | Some c \<Rightarrow>
          (case find_lesson c moduleId lessonId of
             None \<Rightarrow> st
           | Some lesson \<Rightarrow>
               st\<lparr>generatingLessonIds := insert lessonId (generatingLessonIds st),
                  loadingStatus := ''AI is crafting: '' @ lesson_title lesson @ ''...'',
                  in_flight := in_flight st @
                    [\<lparr>req_course = c, req_moduleId = moduleId, req_lessonId = lessonId,
                      req_lesson = lesson\<rparr>]\<rparr>))"

text \<open>
  The \<^verbatim>\<open>try\<close> block (lines 145-177): the service call for the lesson's type and, if it
  returns, the course that \<^verbatim>\<open>setCourse\<close> receives.
\<close>

definition generateLessonBody_try :: "services \<Rightarrow> gen_request \<Rightarrow> js_error + Course" where
  "generateLessonBody_try svc req =
     (let c = req_course req; lesson = req_lesson req;
          moduleId = req_moduleId req; lessonId = req_lessonId req
      in if lesson_type lesson = Video then
           (case generateCourseTeaser svc
                   (''An educational video about '' @ lesson_title lesson @
                    '' for the course '' @ course_title c) of
              Inl e \<Rightarrow> Inl e
            | Inr url \<Rightarrow>
                Inr (c\<lparr>modules :=
                  map (\<lambda>m. if module_id m = moduleId
                            then m\<lparr>lessons := map (\<lambda>l. if lesson_id l = lessonId
                                                        then l\<lparr>videoUrl := Some url\<rparr> else l)
                                                  (lessons m)\<rparr>
                            else m) (modules c)\<rparr>))
         else if lesson_type lesson = Quiz then
           (case generateLessonContent_quiz svc (lesson_title lesson) of
              Inl e \<Rightarrow> Inl e
            | Inr result \<Rightarrow>
                Inr (c\<lparr>modules :=
                  map (\<lambda>m. if module_id m = moduleId
                            then m\<lparr>lessons := map (\<lambda>l. if lesson_id l = lessonId
                                                        then l\<lparr>lesson_quiz := Some result\<rparr> else l)
                                                  (lessons m)\<rparr>
                            else m) (modules c)\<rparr>))
         else
           (case generateLessonContent_text svc (lesson_title lesson) of
              Inl e \<Rightarrow> Inl e
            | Inr result \<Rightarrow>
                Inr (c\<lparr>modules :=
                  map (\<lambda>m. if module_id m = moduleId
                            then m\<lparr>lessons := map (\<lambda>l. if lesson_id l = lessonId
                                                        then l\<lparr>content := result\<rparr> else l)
                                                  (lessons m)\<rparr>
                            else m) (modules c)\<rparr>)))"

text \<open>
  The rest of \<^verbatim>\<open>generateLessonBody\<close>, run when the request settles: \<^verbatim>\<open>setCourse\<close> on
  success, the \<^verbatim>\<open>catch\<close> (an alert) on failure, and the \<^verbatim>\<open>finally\<close> block in both cases.
\<close>

definition generateLessonBody_settle :: "services \<Rightarrow> builder_state \<Rightarrow> gen_request \<Rightarrow> builder_state" where
  "generateLessonBody_settle svc st req =
     (let st1 = (case generateLessonBody_try svc req of
                   Inl e \<Rightarrow> st
                 | Inr c' \<Rightarrow> st\<lparr>bs_course := Some c'\<rparr>)
      in st1\<lparr>generatingLessonIds := generatingLessonIds st1 - {req_lessonId req},
             loadingStatus := [],
             in_flight := remove1 req (in_flight st1)\<rparr>)"

text \<open>One call of \<^verbatim>\<open>generateLessonBody\<close> run to its end with nothing in between.\<close>

definition generateLessonBody :: "services \<Rightarrow> builder_state \<Rightarrow> string \<Rightarrow> string \<Rightarrow> builder_state" where
  "generateLessonBody svc st moduleId lessonId =
     (case bs_course st of
        None \<Rightarrow> st
      | Some c \<Rightarrow>
          (case find_lesson c moduleId lessonId of
             None \<Rightarrow> st
           | Some lesson \<Rightarrow>
               generateLessonBody_settle svc (generateLessonBody_call st moduleId lessonId)
                 \<lparr>req_course = c, req_moduleId = moduleId, req_lessonId = lessonId,
                  req_lesson = lesson\<rparr>))"

text \<open>
  The two controls that call \<^verbatim>\<open>generateLessonBody\<close>. The sparkle button of a lesson in the
  sidebar (lines 437-455) is disabled while that lesson is in \<^verbatim>\<open>generatingLessonIds\<close> or any
  status line is shown. The ``Regenerate Clip'' button (lines 584-589) is shown for the
  selected video lesson once it has a video, and has no \<^verbatim>\<open>disabled\<close> attribute.
\<close>

definition sidebar_generate_click :: "builder_state \<Rightarrow> string \<Rightarrow> string \<Rightarrow> builder_state" where
  "sidebar_generate_click st moduleId lessonId =
     (if lessonId \<in> generatingLessonIds st \<or> loadingStatus st \<noteq> [] then st
      else generateLessonBody_call st moduleId lessonId)"

definition regenerate_clip_click :: "builder_state \<Rightarrow> string \<Rightarrow> string \<Rightarrow> builder_state" where
  "regenerate_clip_click st moduleId lessonId =
     (case bs_course st of
        None \<Rightarrow> st
      | Some c \<Rightarrow>
          (case find_lesson c moduleId lessonId of
             None \<Rightarrow> st
           | Some activeLesson \<Rightarrow>
               if lesson_type activeLesson = Video \<and> videoUrl activeLesson \<noteq> None
               then generateLessonBody_call st moduleId (lesson_id activeLesson)
               else st))"

text \<open>The service requests for a lesson id that are in flight.\<close>

definition requests_for :: "builder_state \<Rightarrow> string \<Rightarrow> gen_request list" where
  "requests_for st lessonId = filter (\<lambda>r. req_lessonId r = lessonId) (in_flight st)"

definition example_builder :: "Lesson \<Rightarrow> builder_state" where
  "example_builder l =
     \<lparr>bs_course = Some (example_course l), generatingLessonIds = {}, loadingStatus = [],
      in_flight = []\<rparr>"

definition failing_services :: services where
  "failing_services =
     \<lparr>generateCourseTeaser = (\<lambda>_. Inl ServiceError),
      generateLessonContent_text = (\<lambda>_. Inl ServiceError),
      generateLessonContent_quiz = (\<lambda>_. Inl ServiceError),
      generateInteractiveLessonStructure = (\<lambda>_. Inl ServiceError),
      generateIllustration = (\<lambda>_ _. Inl ServiceError),
      generateNarration = (\<lambda>_ _. Inl ServiceError)\<rparr>"


section \<open>Number arithmetic (IEEE 754 binary64)\<close>

text \<open>
  A \<^verbatim>\<open>number\<close> of the program is a double. The finite doubles are rationals, and every
  arithmetic operation returns the exact result rounded to the nearest double, ties going to
  the double with an even significand. A positive double in the binade \<open>[2^e, 2^(e+1))\<close> is
  an integer multiple of \<open>2^(e - 52)\<close>, so rounding \<open>x\<close> means rounding \<open>x / 2^(e - 52)\<close> to the
  nearest integer. The exponent range of the format is not modelled: the numbers computed
  here lie between \<open>2^-32\<close> and 128, far from underflow and overflow.
\<close>

type_synonym number = rat

text \<open>How often \<open>x \<ge> 2\<close> is halved until it is below 2; how often \<open>0 < x < 1\<close> is doubled until it is at least 1.\<close>

function halvings :: "rat \<Rightarrow> nat" where
  "halvings x = (if 2 \<le> x then Suc (halvings (x / 2)) else 0)"
  by pat_completeness auto
termination
proof (relation "measure (\<lambda>x. nat \<lfloor>x\<rfloor>)")
  show "wf (measure (\<lambda>x::rat. nat \<lfloor>x\<rfloor>))" by simp
next
  fix x :: rat
  assume x: "2 \<le> x"
  then have "x / 2 \<le> x - 1" by simp
  then have "\<lfloor>x / 2\<rfloor> \<le> \<lfloor>x - 1\<rfloor>" by (rule floor_mono)
  then have "\<lfloor>x / 2\<rfloor> < \<lfloor>x\<rfloor>" by simp
  moreover from x have "2 \<le> \<lfloor>x\<rfloor>" by (simp add: le_floor_iff)
  ultimately show "(x / 2, x) \<in> measure (\<lambda>x. nat \<lfloor>x\<rfloor>)" by simp
qed

function doublings :: "rat \<Rightarrow> nat" where
  "doublings x = (if 0 < x \<and> x < 1 then Suc (doublings (2 * x)) else 0)"
  by pat_completeness auto
termination
proof (relation "measure (\<lambda>x. nat \<lceil>1 / x\<rceil>)")
  show "wf (measure (\<lambda>x::rat. nat \<lceil>1 / x\<rceil>))" by simp
next
  fix x :: rat
  assume x: "0 < x \<and> x < 1"
  then have "1 < 1 / x" by simp
  then have two: "2 \<le> \<lceil>1 / x\<rceil>"
    by (metis ceiling_less_iff less_le_not_le linorder_not_less of_int_1 one_add_one
        zle_add1_eq_le less_ceiling_iff)
  have "1 / (2 * x) \<le> of_int \<lceil>1 / x\<rceil> / 2"
    using x le_of_int_ceiling [of "1 / x"] by (simp add: field_simps)
  also have "\<dots> \<le> of_int (\<lceil>1 / x\<rceil> - 1)"
    using two by simp
  finally have "\<lceil>1 / (2 * x)\<rceil> \<le> \<lceil>1 / x\<rceil> - 1"
    by (rule ceiling_le)
  with two x show "(2 * x, x) \<in> measure (\<lambda>x. nat \<lceil>1 / x\<rceil>)" by simp
qed

text \<open>The binary exponent of a positive number: \<open>2^e \<le> x < 2^(e+1)\<close>.\<close>

definition exponent :: "rat \<Rightarrow> int" where
  "exponent x = (if 1 \<le> x then int (halvings x) else - int (doublings x))"

text \<open>The distance between neighbouring doubles in the binade of \<open>x\<close>.\<close>

definition ulp :: "rat \<Rightarrow> rat" where
  "ulp x = 2 powi (exponent \<bar>x\<bar> - 52)"

text \<open>Rounding to the nearest integer, a tie to the even one.\<close>

definition round_half_even :: "rat \<Rightarrow> int" where
  "round_half_even q =
     (let f = \<lfloor>q\<rfloor>; r = q - of_int f
      in if r < 1 / 2 then f
         else if 1 / 2 < r then f + 1
         else if even f then f else f + 1)"

text \<open>Rounding a rational to the nearest double.\<close>

definition fl64 :: "rat \<Rightarrow> number" where
  "fl64 x = (if x = 0 then 0 else of_int (round_half_even (x / ulp x)) * ulp x)"

text \<open>The operators \<^verbatim>\<open>+\<close>, \<^verbatim>\<open>*\<close> and \<^verbatim>\<open>/\<close> on numbers (the divisor is never 0 where they are used).\<close>

definition number_add :: "number \<Rightarrow> number \<Rightarrow> number" where
  "number_add a b = fl64 (a + b)"

definition number_mul :: "number \<Rightarrow> number \<Rightarrow> number" where
  "number_mul a b = fl64 (a * b)"

definition number_div :: "number \<Rightarrow> number \<Rightarrow> number" where
  "number_div a b = fl64 (a / b)"


section \<open>Generation orchestrator, interactive mode (App: startInteractiveGeneration)\<close>

datatype view = Dashboard | Create | Learn | Edit | Interactive_gen | Interactive_play

text \<open>The status lines, by their text pattern (\<open>StepIllustration n\<close> is ``Step n: Generating illustration...'').\<close>

datatype gen_status =
    NoStatus | Brainstorming | Architecting | StepIllustration nat | StepNarration nat

text \<open>
  The state of the application that interactive generation touches. \<open>progress_log\<close> is not a
  variable of the program: it records, in order, every value passed to \<^verbatim>\<open>setGenProgress\<close>,
  so that the sequence of published values can be stated next to the value that
  \<^verbatim>\<open>genProgress\<close> holds in a given state.
\<close>

record app_state =
  currentView :: view
  interactiveLesson :: "InteractiveLesson option"
  isGeneratingInteractive :: bool
  interactiveTopic :: string
  genProgress :: number
  genStatus :: gen_status
  progress_log :: "number list"

definition setGenProgress :: "number \<Rightarrow> app_state \<Rightarrow> app_state" where
  "setGenProgress v st = st\<lparr>genProgress := v, progress_log := progress_log st @ [v]\<rparr>"

text \<open>
  The argument of \<^verbatim>\<open>setGenProgress\<close> in line 761,
  \<^verbatim>\<open>40 + (i + 1) * (60 / lesson.steps.length)\<close>, in the arithmetic of the program: the
  quotient is rounded, then the product, then the sum. The operands \<^verbatim>\<open>40\<close>, \<^verbatim>\<open>60\<close>, \<^verbatim>\<open>i + 1\<close>
  and \<^verbatim>\<open>lesson.steps.length\<close> are integers below \<open>2^53\<close> and so are doubles themselves.
\<close>

definition step_progress :: "nat \<Rightarrow> nat \<Rightarrow> number" where
  "step_progress i totalSteps =
     number_add 40 (number_mul (of_nat (i + 1)) (number_div 60 (of_nat totalSteps)))"

text \<open>
  The loop of lines 752-762, \<^verbatim>\<open>for (let i = 0; i < lesson.steps.length; i++)\<close>, as a
  recursion over the steps from index \<open>i\<close> on. \<open>totalSteps\<close> is \<^verbatim>\<open>lesson.steps.length\<close> and \<open>acc\<close>
  is \<^verbatim>\<open>stepsWithAssets\<close>. A throwing service call leaves the loop with the error and the
  state reached so far.
\<close>

fun steps_loop ::
    "services \<Rightarrow> nat \<Rightarrow> LessonStep list \<Rightarrow> nat \<Rightarrow> LessonStep list \<Rightarrow> app_state \<Rightarrow>
       (js_error + LessonStep list) \<times> app_state" where
  "steps_loop svc totalSteps [] i acc st = (Inr acc, st)"
| "steps_loop svc totalSteps (step # rest) i acc st =
     (let st1 = st\<lparr>genStatus := StepIllustration (i + 1)\<rparr>
      in case generateIllustration svc i (imagePrompt step) of
           Inl e \<Rightarrow> (Inl e, st1)
         | Inr imageUrl \<Rightarrow>
             (let st2 = st1\<lparr>genStatus := StepNarration (i + 1)\<rparr>
              in case generateNarration svc i (explanation step) of
                   Inl e \<Rightarrow> (Inl e, st2)
                 | Inr audio \<Rightarrow>
                     steps_loop svc totalSteps rest (Suc i)
                       (acc @ [step\<lparr>step_imageUrl := Some imageUrl, audioData := Some audio\<rparr>])
                       (setGenProgress (step_progress i totalSteps) st2)))"

text \<open>Lines 742-744: the state in which the structure request is issued.\<close>

definition generation_started :: "app_state \<Rightarrow> app_state" where
  "generation_started st =
     (setGenProgress 10 (st\<lparr>isGeneratingInteractive := True\<rparr>))\<lparr>genStatus := Brainstorming\<rparr>"

text \<open>Lines 748-749: the state in which the loop over the steps is entered.\<close>

definition structure_arrived :: "app_state \<Rightarrow> app_state" where
  "structure_arrived st = (setGenProgress 40 st)\<lparr>genStatus := Architecting\<rparr>"

text \<open>The \<^verbatim>\<open>try\<close> block of \<^verbatim>\<open>startInteractiveGeneration\<close> (lines 746-765).\<close>

definition startInteractiveGeneration_try :: "services \<Rightarrow> app_state \<Rightarrow> app_state" where
  "startInteractiveGeneration_try svc st =
     (case generateInteractiveLessonStructure svc (interactiveTopic st) of
        Inl e \<Rightarrow> st
      | Inr lesson \<Rightarrow>
          (case steps_loop svc (length (steps lesson)) (steps lesson) 0 []
                  (structure_arrived st) of
             (Inl e, st2) \<Rightarrow> st2
           | (Inr stepsWithAssets, st2) \<Rightarrow>
               st2\<lparr>interactiveLesson := Some (lesson\<lparr>steps := stepsWithAssets\<rparr>),
                   currentView := Interactive_play\<rparr>))"

text \<open>
  \<^verbatim>\<open>startInteractiveGeneration\<close> (lines 740-774): the guard on the topic, the first progress
  value, the \<^verbatim>\<open>try\<close> block, and the \<^verbatim>\<open>finally\<close> block, which resets the progress to 0.
\<close>

definition startInteractiveGeneration :: "services \<Rightarrow> app_state \<Rightarrow> app_state" where
  "startInteractiveGeneration svc st =
     (if interactiveTopic st = [] then st
      else let st2 = startInteractiveGeneration_try svc (generation_started st)
           in (setGenProgress 0 (st2\<lparr>isGeneratingInteractive := False\<rparr>))\<lparr>genStatus := NoStatus\<rparr>)"

text \<open>The asset requests of step \<open>i\<close> return: its illustration and its narration.\<close>

definition step_lands :: "services \<Rightarrow> LessonStep list \<Rightarrow> nat \<Rightarrow> bool" where
  "step_lands svc ss i \<longleftrightarrow>
     \<not> isl (generateIllustration svc i (imagePrompt (ss ! i))) \<and>
     \<not> isl (generateNarration svc i (explanation (ss ! i)))"

text \<open>Every asset request of the steps returns: illustration and narration, step by step.\<close>

definition assets_land :: "services \<Rightarrow> LessonStep list \<Rightarrow> bool" where
  "assets_land svc ss \<longleftrightarrow>
     (\<forall>i<length ss. \<not> isl (generateIllustration svc i (imagePrompt (ss ! i))) \<and>
                     \<not> isl (generateNarration svc i (explanation (ss ! i))))"

definition example_step :: "string \<Rightarrow> LessonStep" where
  "example_step n =
     \<lparr>step_id = n, step_title = ''T'', explanation = ''E'', keyPoints = [], imagePrompt = ''P'',
      step_imageUrl = None, audioData = None\<rparr>"

definition example_app :: app_state where
  "example_app =
     \<lparr>currentView = Interactive_gen, interactiveLesson = None, isGeneratingInteractive = False,
      interactiveTopic = ''topic'', genProgress = 0, genStatus = NoStatus, progress_log = []\<rparr>"

text \<open>A service that returns a three-step lesson; its narration fails from step \<open>k\<close> on.\<close>

definition example_services :: "nat \<Rightarrow> services" where
  "example_services k =
     \<lparr>generateCourseTeaser = (\<lambda>_. Inr ''blob:video''),
      generateLessonContent_text = (\<lambda>_. Inr ''text''),
      generateLessonContent_quiz = (\<lambda>_. Inr [example_question]),
      generateInteractiveLessonStructure = (\<lambda>t.
        Inr \<lparr>il_id = ''i'', topic = t,
             steps = [example_step ''s1'', example_step ''s2'', example_step ''s3''],
             il_quiz = [example_question]\<rparr>),
      generateIllustration = (\<lambda>_ _. Inr ''data:image''),
      generateNarration = (\<lambda>i _. if i < k then Inr ''pcm'' else Inl ServiceError)\<rparr>"

text \<open>A seven-step lesson, and a service that returns it and never fails.\<close>

definition seven_step_lesson :: "string \<Rightarrow> InteractiveLesson" where
  "seven_step_lesson t =
     \<lparr>il_id = ''i'', topic = t,
      steps = map example_step [''s1'', ''s2'', ''s3'', ''s4'', ''s5'', ''s6'', ''s7''],
      il_quiz = [example_question]\<rparr>"

definition seven_step_services :: services where
  "seven_step_services =
     \<lparr>generateCourseTeaser = (\<lambda>_. Inr ''blob:video''),
      generateLessonContent_text = (\<lambda>_. Inr ''text''),
      generateLessonContent_quiz = (\<lambda>_. Inr [example_question]),
      generateInteractiveLessonStructure = (\<lambda>t. Inr (seven_step_lesson t)),
      generateIllustration = (\<lambda>_ _. Inr ''data:image''),
      generateNarration = (\<lambda>_ _. Inr ''pcm'')\<rparr>"


section \<open>Properties\<close>

subsection \<open>Learner-side quiz engine\<close>

lemma selected_toggle_same:
  "selected (toggleAnswer False prev qIdx oIdx) qIdx =
     (if oIdx \<in> set (selected prev qIdx)
      then filter (\<lambda>i. i \<noteq> oIdx) (selected prev qIdx)
      else selected prev qIdx @ [oIdx])"
proof -
  have "toggleAnswer False prev qIdx oIdx qIdx =
          Some (if oIdx \<in> set (selected prev qIdx)
                then filter (\<lambda>i. i \<noteq> oIdx) (selected prev qIdx)
                else selected prev qIdx @ [oIdx])"
    by (simp add: toggleAnswer_def Let_def)
  then show ?thesis
    by (simp add: selected_def [of "toggleAnswer False prev qIdx oIdx"])
qed

lemma selected_toggle_other:
  "q \<noteq> qIdx \<Longrightarrow> selected (toggleAnswer b prev qIdx oIdx) q = selected prev q"
  by (simp add: toggleAnswer_def selected_def Let_def)

lemma toggleAnswer_LMS_eq: "toggleAnswer_LMS b prev qIdx oIdx = toggleAnswer b prev qIdx oIdx"
  by (simp add: toggleAnswer_LMS_def toggleAnswer_def)

lemma distinct_toggled:
  "distinct current \<Longrightarrow>
   distinct (if oIdx \<in> set current then filter (\<lambda>i. i \<noteq> oIdx) current else current @ [oIdx])"
  by simp

lemma toggleAnswer_entry_distinct:
  assumes inv: "\<And>q l. prev q = Some l \<Longrightarrow> distinct l"
    and res: "toggleAnswer b prev qIdx oIdx q = Some l"
  shows "distinct l"
proof (cases "b \<or> q \<noteq> qIdx")
  case True
  with res have "prev q = Some l"
    by (auto simp: toggleAnswer_def Let_def split: if_splits)
  then show ?thesis by (rule inv)
next
  case False
  then have nb: "\<not> b" and qq: "q = qIdx" by simp_all
  have "distinct (selected prev qIdx)"
    using inv by (auto simp: selected_def split: option.splits)
  then have "distinct (if oIdx \<in> set (selected prev qIdx)
      then filter (\<lambda>i. i \<noteq> oIdx) (selected prev qIdx) else selected prev qIdx @ [oIdx])"
    by (rule distinct_toggled)
  moreover from res nb qq have "l = (if oIdx \<in> set (selected prev qIdx)
      then filter (\<lambda>i. i \<noteq> oIdx) (selected prev qIdx) else selected prev qIdx @ [oIdx])"
    by (simp add: toggleAnswer_def Let_def)
  ultimately show ?thesis by simp
qed

lemma isCorrect_iff_set_eq:
  assumes "distinct answers" and "distinct (correctAnswers q)"
  shows "isCorrect answers q \<longleftrightarrow> set answers = set (correctAnswers q)"
proof
  assume c: "isCorrect answers q"
  then have len: "length answers = length (correctAnswers q)"
    and sub: "set answers \<subseteq> set (correctAnswers q)"
    by (auto simp: isCorrect_def list_all_iff)
  from len assms have "card (set answers) = card (set (correctAnswers q))"
    by (simp add: distinct_card)
  with sub show "set answers = set (correctAnswers q)"
    by (simp add: card_subset_eq)
next
  assume e: "set answers = set (correctAnswers q)"
  then have "card (set answers) = card (set (correctAnswers q))" by simp
  with assms have "length answers = length (correctAnswers q)"
    by (simp add: distinct_card)
  with e show "isCorrect answers q"
    by (simp add: isCorrect_def list_all_iff)
qed

lemma reduce_idx_sum:
  "reduce_idx (\<lambda>acc q idx. acc + g q idx) xs idx (acc::nat) =
     acc + (\<Sum>j<length xs. g (xs ! j) (idx + j))"
proof (induction xs arbitrary: idx acc)
  case Nil
  then show ?case by simp
next
  case (Cons x xs)
  have "(\<Sum>j<Suc (length xs). g ((x # xs) ! j) (idx + j)) =
          g x idx + (\<Sum>j<length xs. g (xs ! j) (Suc idx + j))"
    unfolding sum.lessThan_Suc_shift by simp
  with Cons.IH [of "Suc idx" "acc + g x idx"] show ?case by simp
qed

lemma score_as_sum:
  "score True quiz ua =
     (\<Sum>i<length quiz. if isCorrect (selected ua i) (quiz ! i) then 1 else 0)"
  by (simp add: score_def Let_def reduce_idx_sum)

lemma score_not_submitted: "score False quiz ua = 0"
  by (simp add: score_def)


lemma selected_toggle_all_distinct:
  assumes "\<forall>q. distinct (selected prev q)"
  shows "distinct (selected (toggleAnswer b prev qIdx oIdx) q)"
proof (cases "q = qIdx \<and> \<not> b")
  case True
  then show ?thesis
    using assms distinct_toggled [of "selected prev qIdx" oIdx]
    by (simp add: selected_toggle_same)
next
  case False
  then show ?thesis
    using assms by (auto simp: selected_toggle_other) (simp add: toggleAnswer_def)
qed

lemma answers_after_distinct: "distinct (selected (answers_after clicks) q)"
proof -
  have "\<forall>q. distinct (selected
      (foldl (\<lambda>prev (qIdx, oIdx). toggleAnswer False prev qIdx oIdx) prev clicks) q)"
    if "\<forall>q. distinct (selected prev q)" for prev
    using that
  proof (induction clicks arbitrary: prev)
    case Nil
    then show ?case by simp
  next
    case (Cons click clicks)
    obtain qIdx oIdx where c: "click = (qIdx, oIdx)" by (cases click)
    from Cons.prems have "\<forall>q. distinct (selected (toggleAnswer False prev qIdx oIdx) q)"
      by (simp add: selected_toggle_all_distinct)
    from Cons.IH [OF this] c show ?case by simp
  qed
  moreover have "\<forall>q. distinct (selected Map.empty q)"
    by (simp add: selected_def)
  ultimately show ?thesis by (simp add: answers_after_def)
qed

text \<open>
  C9. The learner-side \<^verbatim>\<open>toggleAnswer\<close> (both players) keeps every selection list free of
  duplicates: if no list of the map has a duplicate index, none has after toggling any
  (question, option). On the toggled question the option is removed when it was selected
  and appended once, at the end, when it was not; a question with no entry starts from the
  empty selection, so its first toggle leaves exactly that one option.
\<close>

theorem toggleAnswer_preserves_distinct:
  assumes "\<forall>q. distinct (selected prev q)"
  shows "(\<forall>q. distinct (selected (toggleAnswer quizSubmitted prev qIdx oIdx) q)) \<and>
         (\<forall>q. distinct (selected (toggleAnswer_LMS showResults prev qIdx oIdx) q)) \<and>
         selected (toggleAnswer False prev qIdx oIdx) qIdx =
           (if oIdx \<in> set (selected prev qIdx)
            then filter (\<lambda>i. i \<noteq> oIdx) (selected prev qIdx)
            else selected prev qIdx @ [oIdx]) \<and>
         toggleAnswer_LMS False prev qIdx oIdx = toggleAnswer False prev qIdx oIdx \<and>
         set (selected (toggleAnswer False prev qIdx oIdx) qIdx) =
           (if oIdx \<in> set (selected prev qIdx)
            then set (selected prev qIdx) - {oIdx}
            else insert oIdx (set (selected prev qIdx))) \<and>
         (if prev qIdx = None
          then toggleAnswer False prev qIdx oIdx qIdx = Some [oIdx]
          else selected prev qIdx = the (prev qIdx))"
proof -
  have a: "\<forall>q. distinct (selected (toggleAnswer quizSubmitted prev qIdx oIdx) q)"
    using assms by (simp add: selected_toggle_all_distinct)
  have b: "\<forall>q. distinct (selected (toggleAnswer_LMS showResults prev qIdx oIdx) q)"
    using assms by (simp add: toggleAnswer_LMS_eq selected_toggle_all_distinct)
  have c: "set (selected (toggleAnswer False prev qIdx oIdx) qIdx) =
           (if oIdx \<in> set (selected prev qIdx)
            then set (selected prev qIdx) - {oIdx}
            else insert oIdx (set (selected prev qIdx)))"
    by (auto simp: selected_toggle_same)
  have d: "(if prev qIdx = None
          then toggleAnswer False prev qIdx oIdx qIdx = Some [oIdx]
          else selected prev qIdx = the (prev qIdx))"
    by (auto simp: toggleAnswer_def selected_def Let_def)
  from a b c d show ?thesis
    by (simp only: selected_toggle_same toggleAnswer_LMS_eq simp_thms)
qed

theorem toggleAnswer_preserves_distinct_witness:
  "(\<forall>q. distinct (selected [0 \<mapsto> [1, 2]] q)) \<and>
   (\<forall>q. distinct (selected (toggleAnswer False [0 \<mapsto> [1, 2]] 0 2) q)) \<and>
   selected (toggleAnswer False [0 \<mapsto> [1, 2]] 0 2) 0 = [1] \<and>
   selected (toggleAnswer False [0 \<mapsto> [1, 2]] 0 3) 0 = [1, 2, 3] \<and>
   toggleAnswer False [0 \<mapsto> [1, 2]] 1 3 1 = Some [3]"
proof -
  have h: "\<forall>q. distinct (selected [0 \<mapsto> [1, 2::nat]] q)"
    by (simp add: selected_def)
  have s: "selected [0 \<mapsto> [1, 2::nat]] 0 = [1, 2]" "[0 \<mapsto> [1, 2::nat]] (1::nat) = None"
    by (simp_all add: selected_def)
  show ?thesis
    using h s
      toggleAnswer_preserves_distinct [OF h, of False 0 2 False]
      toggleAnswer_preserves_distinct [OF h, of False 0 3 False]
      toggleAnswer_preserves_distinct [OF h, of False 1 3 False]
    by simp
qed

text \<open>
  C1. Scoring awards one point per question exactly when the selected-option set equals the
  question's \<^verbatim>\<open>correctAnswers\<close> set. Sets are what the code stores as arrays without
  repeated indices (the selections by C9, the correct answers by the data model), and the
  score is the one computed once the quiz is submitted. Then: the score is the number of
  questions whose selection equals the correct set; a question whose selection is a strict
  subset or a strict superset of the correct set fails the test; the score never exceeds
  the number of questions, and equals it exactly when every selection equals its correct set.
\<close>

theorem score_exact_set_equality:
  assumes "\<forall>q \<in> set quiz. distinct (correctAnswers q)"
    and "\<forall>i<length quiz. distinct (selected userAnswers i)"
  shows "score True quiz userAnswers =
           (\<Sum>i<length quiz.
              if set (selected userAnswers i) = set (correctAnswers (quiz ! i)) then 1 else 0) \<and>
         (\<forall>i<length quiz.
            isCorrect (selected userAnswers i) (quiz ! i) \<longleftrightarrow>
              set (selected userAnswers i) = set (correctAnswers (quiz ! i))) \<and>
         (\<forall>i<length quiz.
            set (selected userAnswers i) \<subset> set (correctAnswers (quiz ! i)) \<or>
            set (correctAnswers (quiz ! i)) \<subset> set (selected userAnswers i) \<longrightarrow>
              \<not> isCorrect (selected userAnswers i) (quiz ! i)) \<and>
         score True quiz userAnswers \<le> length quiz \<and>
         (score True quiz userAnswers = length quiz \<longleftrightarrow>
            (\<forall>i<length quiz.
               set (selected userAnswers i) = set (correctAnswers (quiz ! i))))"
proof -
  let ?ok = "\<lambda>i. set (selected userAnswers i) = set (correctAnswers (quiz ! i))"
  have iff: "isCorrect (selected userAnswers i) (quiz ! i) \<longleftrightarrow> ?ok i" if "i < length quiz" for i
    using that assms by (intro isCorrect_iff_set_eq) auto
  have sc: "score True quiz userAnswers = (\<Sum>i<length quiz. if ?ok i then 1 else 0)"
    unfolding score_as_sum by (rule sum.cong) (simp_all add: iff)
  have card: "(\<Sum>i<length quiz. if ?ok i then 1 else 0) = card {i \<in> {..<length quiz}. ?ok i}"
    by (simp add: sum.If_cases Int_def)
  have le: "card {i \<in> {..<length quiz}. ?ok i} \<le> length quiz"
    using card_mono [of "{..<length quiz}" "{i \<in> {..<length quiz}. ?ok i}"] by auto
  have full: "card {i \<in> {..<length quiz}. ?ok i} = length quiz \<longleftrightarrow> (\<forall>i<length quiz. ?ok i)"
  proof
    assume "card {i \<in> {..<length quiz}. ?ok i} = length quiz"
    then have "{i \<in> {..<length quiz}. ?ok i} = {..<length quiz}"
      by (intro card_subset_eq) auto
    then show "\<forall>i<length quiz. ?ok i" by blast
  next
    assume "\<forall>i<length quiz. ?ok i"
    then have "{i \<in> {..<length quiz}. ?ok i} = {..<length quiz}" by auto
    then show "card {i \<in> {..<length quiz}. ?ok i} = length quiz" by simp
  qed
  have strict: "\<not> isCorrect (selected userAnswers i) (quiz ! i)"
    if "i < length quiz"
      and "set (selected userAnswers i) \<subset> set (correctAnswers (quiz ! i)) \<or>
           set (correctAnswers (quiz ! i)) \<subset> set (selected userAnswers i)" for i
    using that iff [of i] by auto
  from sc card le full iff strict show ?thesis by simp
qed

theorem score_exact_set_equality_witness:
  "score True [example_question] [0 \<mapsto> [2, 0]] = 1 \<and>
   \<not> isCorrect (selected [0 \<mapsto> [0]] 0) example_question \<and>
   \<not> isCorrect (selected [0 \<mapsto> [0, 1, 2]] 0) example_question"
proof -
  have h1: "\<forall>q \<in> set [example_question]. distinct (correctAnswers q)"
    by (simp add: example_question_def)
  have h2: "\<forall>i<length [example_question]. distinct (selected [0 \<mapsto> [2, 0::nat]] i)"
    and h3: "\<forall>i<length [example_question]. distinct (selected [0 \<mapsto> [0::nat]] i)"
    and h4: "\<forall>i<length [example_question]. distinct (selected [0 \<mapsto> [0, 1, 2::nat]] i)"
    by (simp_all add: selected_def)
  have s: "selected [0 \<mapsto> [2, 0::nat]] 0 = [2, 0]" "selected [0 \<mapsto> [0::nat]] 0 = [0]"
    "selected [0 \<mapsto> [0, 1, 2::nat]] 0 = [0, 1, 2]"
    by (simp_all add: selected_def)
  have c: "correctAnswers example_question = [0, 2]"
    by (simp add: example_question_def)
  have e: "set [2, 0::nat] = set [0, 2]" "set [0::nat] \<noteq> set [0, 2]"
    "set [0, 1, 2::nat] \<noteq> set [0, 2]"
  proof -
    show "set [2, 0::nat] = set [0, 2]" by (simp add: insert_commute)
    have "(2::nat) \<in> set [0, 2]" "(2::nat) \<notin> set [0]" by simp_all
    then show "set [0::nat] \<noteq> set [0, 2]" by metis
    have "(1::nat) \<in> set [0, 1, 2]" "(1::nat) \<notin> set [0, 2]" by simp_all
    then show "set [0, 1, 2::nat] \<noteq> set [0, 2]" by metis
  qed
  from score_exact_set_equality [OF h1 h2, THEN conjunct1]
  have a1: "score True [example_question] [0 \<mapsto> [2, 0]] = 1"
    using s c e by simp
  from score_exact_set_equality [OF h1 h3, THEN conjunct2, THEN conjunct1]
  have "isCorrect (selected [0 \<mapsto> [0]] 0) example_question \<longleftrightarrow>
          set (selected [0 \<mapsto> [0::nat]] 0) = set (correctAnswers example_question)"
    by simp
  with s c e have a2: "\<not> isCorrect (selected [0 \<mapsto> [0]] 0) example_question"
    by simp
  from score_exact_set_equality [OF h1 h4, THEN conjunct2, THEN conjunct1]
  have "isCorrect (selected [0 \<mapsto> [0, 1, 2]] 0) example_question \<longleftrightarrow>
          set (selected [0 \<mapsto> [0, 1, 2::nat]] 0) = set (correctAnswers example_question)"
    by simp
  with s c e have a3: "\<not> isCorrect (selected [0 \<mapsto> [0, 1, 2]] 0) example_question"
    by simp
  from a1 a2 a3 show ?thesis by simp
qed

text \<open>
  The two hypotheses of C1 say that the arrays represent sets. The selections always do
  (\<open>answers_after_distinct\<close>). An array with a repeated index is not a set, and the test of
  equal lengths then no longer compares the sets.
\<close>

lemma isCorrect_repeated_index:
  "isCorrect [0, 0] (example_question\<lparr>correctAnswers := [0, 1]\<rparr>) \<and>
   \<not> isCorrect [0] (example_question\<lparr>correctAnswers := [0, 0]\<rparr>)"
  by (simp add: isCorrect_def)

subsection \<open>Authoring-side content tree\<close>

lemma map_err_Inr_D:
  "map_err f xs = Inr ys \<Longrightarrow> list_all2 (\<lambda>x y. f x = Inr y) xs ys"
  by (induction xs arbitrary: ys) (auto split: sum.splits)

lemma map_err_Inr_I:
  "list_all2 (\<lambda>x y. f x = Inr y) xs ys \<Longrightarrow> map_err f xs = Inr ys"
  by (induction rule: list_all2_induct) auto

lemma map_err_Inr_iff:
  "map_err f xs = Inr ys \<longleftrightarrow> list_all2 (\<lambda>x y. f x = Inr y) xs ys"
  using map_err_Inr_D map_err_Inr_I by blast

lemma toggle_twice_set:
  "set (let n = (if oIdx \<in> set xs then filter (\<lambda>idx. idx \<noteq> oIdx) xs else xs @ [oIdx])
        in if oIdx \<in> set n then filter (\<lambda>idx. idx \<noteq> oIdx) n else n @ [oIdx]) = set xs"
  by (auto simp: Let_def)

lemma toggle_lesson_twice:
  assumes "toggleQuizAnswer_lesson lessonId qIdx oIdx l = Inr l1"
  shows "\<exists>l2. toggleQuizAnswer_lesson lessonId qIdx oIdx l1 = Inr l2 \<and>
           lesson_sets l2 = lesson_sets l \<and>
           without_answers_lesson l2 = without_answers_lesson l"
proof (cases "lesson_quiz l")
  case None
  with assms have "l1 = l" by (simp add: toggleQuizAnswer_lesson_def)
  with None show ?thesis by (simp add: toggleQuizAnswer_lesson_def)
next
  case (Some qz)
  show ?thesis
  proof (cases "lesson_id l = lessonId")
    case False
    with assms Some have "l1 = l" by (simp add: toggleQuizAnswer_lesson_def)
    with False Some show ?thesis by (simp add: toggleQuizAnswer_lesson_def)
  next
    case True
    with assms Some have lt: "qIdx < length qz"
      by (simp add: toggleQuizAnswer_lesson_def Let_def split: if_splits)
    define ca where "ca = correctAnswers (qz ! qIdx)"
    define n1 where "n1 = (if oIdx \<in> set ca then filter (\<lambda>idx. idx \<noteq> oIdx) ca else ca @ [oIdx])"
    define n2 where "n2 = (if oIdx \<in> set n1 then filter (\<lambda>idx. idx \<noteq> oIdx) n1 else n1 @ [oIdx])"
    have l1: "l1 = l\<lparr>lesson_quiz := Some (qz[qIdx := (qz ! qIdx)\<lparr>correctAnswers := n1\<rparr>])\<rparr>"
      using assms Some True lt by (auto simp: toggleQuizAnswer_lesson_def Let_def ca_def n1_def)
    define l2 where "l2 = l\<lparr>lesson_quiz := Some (qz[qIdx := (qz ! qIdx)\<lparr>correctAnswers := n2\<rparr>])\<rparr>"
    have r: "toggleQuizAnswer_lesson lessonId qIdx oIdx l1 = Inr l2"
      using True lt by (simp add: l1 l2_def toggleQuizAnswer_lesson_def Let_def n2_def)
    have s: "set n2 = set ca"
      unfolding n2_def n1_def by auto
    have "map (\<lambda>q. set (correctAnswers q)) (qz[qIdx := (qz ! qIdx)\<lparr>correctAnswers := n2\<rparr>]) =
          map (\<lambda>q. set (correctAnswers q)) qz"
      using lt s by (simp add: list_eq_iff_nth_eq nth_list_update ca_def)
    then have a: "lesson_sets l2 = lesson_sets l"
      by (simp add: lesson_sets_def l2_def Some)
    have "map (\<lambda>q. q\<lparr>correctAnswers := []\<rparr>) (qz[qIdx := (qz ! qIdx)\<lparr>correctAnswers := n2\<rparr>]) =
          map (\<lambda>q. q\<lparr>correctAnswers := []\<rparr>) qz"
      using lt by (simp add: list_eq_iff_nth_eq nth_list_update)
    then have b: "without_answers_lesson l2 = without_answers_lesson l"
      by (simp add: without_answers_lesson_def l2_def Some)
    from r a b show ?thesis by blast
  qed
qed

lemma toggle_lessons_twice:
  assumes "list_all2 (\<lambda>x y. toggleQuizAnswer_lesson lessonId qIdx oIdx x = Inr y) ls ls1"
  shows "\<exists>ls2. map_err (toggleQuizAnswer_lesson lessonId qIdx oIdx) ls1 = Inr ls2 \<and>
           map lesson_sets ls2 = map lesson_sets ls \<and>
           map without_answers_lesson ls2 = map without_answers_lesson ls"
  using assms
proof (induction rule: list_all2_induct)
  case Nil
  then show ?case by simp
next
  case (Cons x xs y ys)
  from toggle_lesson_twice [OF Cons.hyps(1)] obtain l2 where
    "toggleQuizAnswer_lesson lessonId qIdx oIdx y = Inr l2" "lesson_sets l2 = lesson_sets x"
    "without_answers_lesson l2 = without_answers_lesson x" by blast
  moreover from Cons.IH obtain ls2 where
    "map_err (toggleQuizAnswer_lesson lessonId qIdx oIdx) ys = Inr ls2"
    "map lesson_sets ls2 = map lesson_sets xs"
    "map without_answers_lesson ls2 = map without_answers_lesson xs" by blast
  ultimately show ?case by simp
qed

lemma toggle_module_twice:
  assumes "toggleQuizAnswer_module moduleId lessonId qIdx oIdx m = Inr m1"
  shows "\<exists>m2. toggleQuizAnswer_module moduleId lessonId qIdx oIdx m1 = Inr m2 \<and>
           module_sets m2 = module_sets m \<and>
           without_answers_module m2 = without_answers_module m"
proof (cases "module_id m = moduleId")
  case False
  with assms have "m1 = m" by (simp add: toggleQuizAnswer_module_def)
  with False show ?thesis by (simp add: toggleQuizAnswer_module_def)
next
  case True
  with assms obtain ls1 where
    ls1: "map_err (toggleQuizAnswer_lesson lessonId qIdx oIdx) (lessons m) = Inr ls1"
    and m1: "m1 = m\<lparr>lessons := ls1\<rparr>"
    by (auto simp: toggleQuizAnswer_module_def split: sum.splits)
  from ls1 have "list_all2 (\<lambda>x y. toggleQuizAnswer_lesson lessonId qIdx oIdx x = Inr y) (lessons m) ls1"
    by (simp add: map_err_Inr_iff)
  from toggle_lessons_twice [OF this] obtain ls2 where
    "map_err (toggleQuizAnswer_lesson lessonId qIdx oIdx) ls1 = Inr ls2"
    "map lesson_sets ls2 = map lesson_sets (lessons m)"
    "map without_answers_lesson ls2 = map without_answers_lesson (lessons m)" by blast
  with True m1 show ?thesis
    by (simp add: toggleQuizAnswer_module_def module_sets_def without_answers_module_def)
qed

lemma toggle_modules_twice:
  assumes "list_all2 (\<lambda>x y. toggleQuizAnswer_module moduleId lessonId qIdx oIdx x = Inr y) ms ms1"
  shows "\<exists>ms2. map_err (toggleQuizAnswer_module moduleId lessonId qIdx oIdx) ms1 = Inr ms2 \<and>
           map module_sets ms2 = map module_sets ms \<and>
           map without_answers_module ms2 = map without_answers_module ms"
  using assms
proof (induction rule: list_all2_induct)
  case Nil
  then show ?case by simp
next
  case (Cons x xs y ys)
  from toggle_module_twice [OF Cons.hyps(1)] obtain m2 where
    "toggleQuizAnswer_module moduleId lessonId qIdx oIdx y = Inr m2" "module_sets m2 = module_sets x"
    "without_answers_module m2 = without_answers_module x" by blast
  moreover from Cons.IH obtain ms2 where
    "map_err (toggleQuizAnswer_module moduleId lessonId qIdx oIdx) ys = Inr ms2"
    "map module_sets ms2 = map module_sets xs"
    "map without_answers_module ms2 = map without_answers_module xs" by blast
  ultimately show ?case by simp
qed

lemma toggle_course_twice:
  assumes "toggleQuizAnswer (Some c) moduleId lessonId qIdx oIdx = Inr (Some c1)"
  shows "\<exists>c2. toggleQuizAnswer (Some c1) moduleId lessonId qIdx oIdx = Inr (Some c2) \<and>
           answer_sets c2 = answer_sets c \<and> without_answers c2 = without_answers c"
proof -
  from assms obtain ms1 where
    ms1: "map_err (toggleQuizAnswer_module moduleId lessonId qIdx oIdx) (modules c) = Inr ms1"
    and c1: "c1 = c\<lparr>modules := ms1\<rparr>"
    by (auto simp: toggleQuizAnswer_def split: sum.splits)
  from ms1 have "list_all2 (\<lambda>x y. toggleQuizAnswer_module moduleId lessonId qIdx oIdx x = Inr y) (modules c) ms1"
    by (simp add: map_err_Inr_iff)
  from toggle_modules_twice [OF this] obtain ms2 where
    "map_err (toggleQuizAnswer_module moduleId lessonId qIdx oIdx) ms1 = Inr ms2"
    "map module_sets ms2 = map module_sets (modules c)"
    "map without_answers_module ms2 = map without_answers_module (modules c)" by blast
  with c1 show ?thesis
    by (simp add: toggleQuizAnswer_def answer_sets_def without_answers_def)
qed

lemma map_err_total:
  "(\<forall>x \<in> set xs. \<exists>y. f x = Inr y) \<Longrightarrow> \<exists>ys. map_err f xs = Inr ys"
  by (induction xs) auto

lemma toggle_lesson_total:
  "(lesson_id l = lessonId \<longrightarrow> (case lesson_quiz l of None \<Rightarrow> True | Some lquiz \<Rightarrow> qIdx < length lquiz))
   \<Longrightarrow> \<exists>l1. toggleQuizAnswer_lesson lessonId qIdx oIdx l = Inr l1"
  by (auto simp: toggleQuizAnswer_lesson_def Let_def split: option.splits)

lemma toggle_course_total:
  assumes "question_in_range c moduleId lessonId qIdx"
  shows "\<exists>c1. toggleQuizAnswer (Some c) moduleId lessonId qIdx oIdx = Inr (Some c1)"
proof -
  have "\<exists>m1. toggleQuizAnswer_module moduleId lessonId qIdx oIdx m = Inr m1"
    if m: "m \<in> set (modules c)" for m
  proof (cases "module_id m = moduleId")
    case False
    then show ?thesis by (simp add: toggleQuizAnswer_module_def)
  next
    case True
    have "\<forall>l \<in> set (lessons m). \<exists>l1. toggleQuizAnswer_lesson lessonId qIdx oIdx l = Inr l1"
      using assms m True by (auto simp: question_in_range_def intro!: toggle_lesson_total)
    from map_err_total [OF this] True show ?thesis
      by (auto simp: toggleQuizAnswer_module_def)
  qed
  then have "\<exists>ms. map_err (toggleQuizAnswer_module moduleId lessonId qIdx oIdx) (modules c) = Inr ms"
    by (intro map_err_total) blast
  then show ?thesis by (auto simp: toggleQuizAnswer_def)
qed

lemma toggle_lesson_once:
  assumes "toggleQuizAnswer_lesson lessonId qIdx oIdx l = Inr l1"
    and "lesson_id l = lessonId" and "lesson_quiz l = Some lquiz"
  shows "qIdx < length lquiz \<and>
         (\<exists>lquiz1. lesson_quiz l1 = Some lquiz1 \<and> length lquiz1 = length lquiz \<and>
            set (correctAnswers (lquiz1 ! qIdx)) =
              (if oIdx \<in> set (correctAnswers (lquiz ! qIdx))
               then set (correctAnswers (lquiz ! qIdx)) - {oIdx}
               else insert oIdx (set (correctAnswers (lquiz ! qIdx)))))"
  using assms by (auto simp: toggleQuizAnswer_lesson_def Let_def split: if_splits)

lemma toggle_course_once:
  assumes t: "toggleQuizAnswer (Some c) moduleId lessonId qIdx oIdx = Inr (Some c1)"
    and i: "i < length (modules c)" and j: "j < length (lessons (modules c ! i))"
    and a: "module_id (modules c ! i) = moduleId"
      "lesson_id (lessons (modules c ! i) ! j) = lessonId"
      "lesson_quiz (lessons (modules c ! i) ! j) = Some lquiz"
  shows "qIdx < length lquiz \<and>
         (\<exists>lquiz1. lesson_quiz (lessons (modules c1 ! i) ! j) = Some lquiz1 \<and>
            length lquiz1 = length lquiz \<and>
            set (correctAnswers (lquiz1 ! qIdx)) =
              (if oIdx \<in> set (correctAnswers (lquiz ! qIdx))
               then set (correctAnswers (lquiz ! qIdx)) - {oIdx}
               else insert oIdx (set (correctAnswers (lquiz ! qIdx)))))"
proof -
  from t obtain ms1 where
    ms1: "map_err (toggleQuizAnswer_module moduleId lessonId qIdx oIdx) (modules c) = Inr ms1"
    and c1: "c1 = c\<lparr>modules := ms1\<rparr>"
    by (auto simp: toggleQuizAnswer_def split: sum.splits)
  from ms1 i have "toggleQuizAnswer_module moduleId lessonId qIdx oIdx (modules c ! i) = Inr (ms1 ! i)"
    by (simp add: map_err_Inr_iff list_all2_conv_all_nth)
  with a(1) obtain ls1 where
    ls1: "map_err (toggleQuizAnswer_lesson lessonId qIdx oIdx) (lessons (modules c ! i)) = Inr ls1"
    and m1: "ms1 ! i = (modules c ! i)\<lparr>lessons := ls1\<rparr>"
    by (auto simp: toggleQuizAnswer_module_def split: sum.splits)
  from ls1 j have "toggleQuizAnswer_lesson lessonId qIdx oIdx (lessons (modules c ! i) ! j) = Inr (ls1 ! j)"
    by (simp add: map_err_Inr_iff list_all2_conv_all_nth)
  from toggle_lesson_once [OF this a(2) a(3)] c1 m1 show ?thesis by simp
qed

text \<open>
  C7. \<^verbatim>\<open>toggleQuizAnswer\<close> is its own inverse on the correct-answer sets. For every course
  and every module id, lesson id, question index and option index such that the question
  index is in range for the addressed quizzes, the toggle succeeds, toggling the same
  (question, option) again succeeds too, and the result has the same correct-answer set at
  every question as the original course and is the original course in everything that is
  not a \<^verbatim>\<open>correctAnswers\<close> array. One application is a symmetric-difference update of the
  addressed question's set: the option index is removed if present and added if absent.
\<close>

theorem toggleQuizAnswer_involution:
  assumes "question_in_range c moduleId lessonId qIdx"
  shows "\<exists>c1 c2.
           toggleQuizAnswer (Some c) moduleId lessonId qIdx oIdx = Inr (Some c1) \<and>
           toggleQuizAnswer (Some c1) moduleId lessonId qIdx oIdx = Inr (Some c2) \<and>
           answer_sets c2 = answer_sets c \<and>
           without_answers c2 = without_answers c \<and>
           (\<forall>i<length (modules c). \<forall>j<length (lessons (modules c ! i)). \<forall>lquiz.
              module_id (modules c ! i) = moduleId \<and>
              lesson_id (lessons (modules c ! i) ! j) = lessonId \<and>
              lesson_quiz (lessons (modules c ! i) ! j) = Some lquiz \<longrightarrow>
                qIdx < length lquiz \<and>
                (\<exists>lquiz1. lesson_quiz (lessons (modules c1 ! i) ! j) = Some lquiz1 \<and>
                   length lquiz1 = length lquiz \<and>
                   set (correctAnswers (lquiz1 ! qIdx)) =
                     (if oIdx \<in> set (correctAnswers (lquiz ! qIdx))
                      then set (correctAnswers (lquiz ! qIdx)) - {oIdx}
                      else insert oIdx (set (correctAnswers (lquiz ! qIdx))))))"
proof -
  from toggle_course_total [OF assms] obtain c1 where
    c1: "toggleQuizAnswer (Some c) moduleId lessonId qIdx oIdx = Inr (Some c1)" by blast
  from toggle_course_twice [OF c1] obtain c2 where
    c2: "toggleQuizAnswer (Some c1) moduleId lessonId qIdx oIdx = Inr (Some c2)"
      "answer_sets c2 = answer_sets c" "without_answers c2 = without_answers c" by blast
  from c1 c2 toggle_course_once [OF c1] show ?thesis by blast
qed

theorem toggleQuizAnswer_involution_witness:
  "question_in_range (example_course (example_lesson Quiz None (Some [example_question]))) ''m1'' ''l1'' 0 \<and>
   (\<exists>c1 c2.
      toggleQuizAnswer (Some (example_course (example_lesson Quiz None (Some [example_question]))))
        ''m1'' ''l1'' 0 0 = Inr (Some c1) \<and>
      toggleQuizAnswer (Some c1) ''m1'' ''l1'' 0 0 = Inr (Some c2) \<and>
      answer_sets c2 = [[Some [{0, 2}]]])"
proof -
  let ?c = "example_course (example_lesson Quiz None (Some [example_question]))"
  have h: "question_in_range ?c ''m1'' ''l1'' 0"
    by (simp add: question_in_range_def example_course_def example_lesson_def)
  have a: "answer_sets ?c = [[Some [{0, 2}]]]"
    by (simp add: answer_sets_def module_sets_def lesson_sets_def example_course_def
        example_lesson_def example_question_def)
  from toggleQuizAnswer_involution [OF h, of 0] obtain c1 c2 where
    "toggleQuizAnswer (Some ?c) ''m1'' ''l1'' 0 0 = Inr (Some c1)"
    "toggleQuizAnswer (Some c1) ''m1'' ''l1'' 0 0 = Inr (Some c2)"
    "answer_sets c2 = answer_sets ?c" by blast
  with h a show ?thesis by auto
qed

lemma toggleQuizAnswer_out_of_range:
  "toggleQuizAnswer (Some (example_course (example_lesson Quiz None (Some [])))) ''m1'' ''l1'' 0 0 =
     Inl TypeError"
  by (simp add: toggleQuizAnswer_def toggleQuizAnswer_module_def toggleQuizAnswer_lesson_def
      example_course_def example_lesson_def)

lemma toggleQuizAnswer_reorders:
  "toggleQuizAnswer (Some (example_course (example_lesson Quiz None (Some [example_question]))))
     ''m1'' ''l1'' 0 0 =
     Inr (Some (example_course (example_lesson Quiz None
       (Some [example_question\<lparr>correctAnswers := [2]\<rparr>])))) \<and>
   toggleQuizAnswer (Some (example_course (example_lesson Quiz None
       (Some [example_question\<lparr>correctAnswers := [2]\<rparr>])))) ''m1'' ''l1'' 0 0 =
     Inr (Some (example_course (example_lesson Quiz None
       (Some [example_question\<lparr>correctAnswers := [2, 0]\<rparr>]))))"
  by (simp add: toggleQuizAnswer_def toggleQuizAnswer_module_def toggleQuizAnswer_lesson_def
      example_course_def example_lesson_def example_question_def)

lemma addQuizQuestion_modules:
  "addQuizQuestion (Some c) moduleId lessonId = Some c' \<Longrightarrow>
   modules c' =
     map (\<lambda>m. if module_id m = moduleId
               then m\<lparr>lessons :=
                      map (\<lambda>l. if lesson_id l = lessonId
                                then l\<lparr>lesson_quiz :=
                                       Some ((case lesson_quiz l of None \<Rightarrow> [] | Some lquiz \<Rightarrow> lquiz)
                                             @ [newQuestion])\<rparr>
                                else l) (lessons m)\<rparr>
               else m) (modules c) \<and>
   c'\<lparr>modules := modules c\<rparr> = c"
  by (auto simp: addQuizQuestion_def)

text \<open>
  C10. \<^verbatim>\<open>addQuizQuestion\<close> appends exactly one question to the quiz of every lesson the two
  ids address, and changes nothing else. For every course it returns a course with the same
  fields, the same modules and lessons in the same order; a lesson that is not addressed is
  unchanged; an addressed lesson differs only in its quiz, which is the old quiz (empty when
  absent) followed by the new question: one question longer, the old questions first and
  unchanged, the new one last. The new question has exactly two options and
  \<^verbatim>\<open>correctAnswers = [0]\<close>, so it has at least two options and every correct index is
  below the number of options.
\<close>

theorem addQuizQuestion_appends_one:
  "\<exists>c'. addQuizQuestion (Some c) moduleId lessonId = Some c' \<and>
     c'\<lparr>modules := modules c\<rparr> = c \<and>
     length (modules c') = length (modules c) \<and>
     (\<forall>i<length (modules c).
        (modules c' ! i)\<lparr>lessons := lessons (modules c ! i)\<rparr> = modules c ! i \<and>
        length (lessons (modules c' ! i)) = length (lessons (modules c ! i)) \<and>
        (\<forall>j<length (lessons (modules c ! i)).
           (if module_id (modules c ! i) = moduleId \<and>
               lesson_id (lessons (modules c ! i) ! j) = lessonId
            then (\<exists>lquiz'.
                    lesson_quiz (lessons (modules c' ! i) ! j) = Some lquiz' \<and>
                    length lquiz' =
                      Suc (length (case lesson_quiz (lessons (modules c ! i) ! j) of
                                     None \<Rightarrow> [] | Some lquiz \<Rightarrow> lquiz)) \<and>
                    butlast lquiz' =
                      (case lesson_quiz (lessons (modules c ! i) ! j) of
                         None \<Rightarrow> [] | Some lquiz \<Rightarrow> lquiz) \<and>
                    last lquiz' = newQuestion) \<and>
                 (lessons (modules c' ! i) ! j)
                   \<lparr>lesson_quiz := lesson_quiz (lessons (modules c ! i) ! j)\<rparr> =
                 lessons (modules c ! i) ! j
            else lessons (modules c' ! i) ! j = lessons (modules c ! i) ! j))) \<and>
     length (options newQuestion) = 2 \<and>
     correctAnswers newQuestion = [0] \<and>
     2 \<le> length (options newQuestion) \<and>
     (\<forall>k \<in> set (correctAnswers newQuestion). k < length (options newQuestion))"
proof -
  obtain c' where c': "addQuizQuestion (Some c) moduleId lessonId = Some c'"
    by (simp add: addQuizQuestion_def)
  note m = addQuizQuestion_modules [OF c']
  have nq: "length (options newQuestion) = 2" "correctAnswers newQuestion = [0]"
    by (simp_all add: newQuestion_def)
  have len: "length (modules c') = length (modules c)"
    using m by simp
  have mods: "(modules c' ! i)\<lparr>lessons := lessons (modules c ! i)\<rparr> = modules c ! i \<and>
        length (lessons (modules c' ! i)) = length (lessons (modules c ! i))"
    if "i < length (modules c)" for i
    using that m by simp
  have les: "(if module_id (modules c ! i) = moduleId \<and>
               lesson_id (lessons (modules c ! i) ! j) = lessonId
            then (\<exists>lquiz'.
                    lesson_quiz (lessons (modules c' ! i) ! j) = Some lquiz' \<and>
                    length lquiz' =
                      Suc (length (case lesson_quiz (lessons (modules c ! i) ! j) of
                                     None \<Rightarrow> [] | Some lquiz \<Rightarrow> lquiz)) \<and>
                    butlast lquiz' =
                      (case lesson_quiz (lessons (modules c ! i) ! j) of
                         None \<Rightarrow> [] | Some lquiz \<Rightarrow> lquiz) \<and>
                    last lquiz' = newQuestion) \<and>
                 (lessons (modules c' ! i) ! j)
                   \<lparr>lesson_quiz := lesson_quiz (lessons (modules c ! i) ! j)\<rparr> =
                 lessons (modules c ! i) ! j
            else lessons (modules c' ! i) ! j = lessons (modules c ! i) ! j)"
    if "i < length (modules c)" "j < length (lessons (modules c ! i))" for i j
    using that m by simp
  from c' m len mods les nq show ?thesis by simp
qed

theorem addQuizQuestion_appends_one_witness:
  "\<exists>c'. addQuizQuestion (Some (example_course (example_lesson Quiz None None))) ''m1'' ''l1'' = Some c' \<and>
     lesson_quiz (lessons (modules c' ! 0) ! 0) = Some [newQuestion] \<and>
     module_id (modules c' ! 0) = ''m1''"
proof -
  let ?c = "example_course (example_lesson Quiz None None)"
  have s: "length (modules ?c) = 1" "length (lessons (modules ?c ! 0)) = 1"
    "module_id (modules ?c ! 0) = ''m1''" "lesson_id (lessons (modules ?c ! 0) ! 0) = ''l1''"
    "lesson_quiz (lessons (modules ?c ! 0) ! 0) = None"
    by (simp_all add: example_course_def example_lesson_def)
  from addQuizQuestion_appends_one [of ?c "''m1''" "''l1''"] obtain c' where
    c': "addQuizQuestion (Some ?c) ''m1'' ''l1'' = Some c'"
    and r: "\<forall>i<length (modules ?c).
        (modules c' ! i)\<lparr>lessons := lessons (modules ?c ! i)\<rparr> = modules ?c ! i \<and>
        length (lessons (modules c' ! i)) = length (lessons (modules ?c ! i)) \<and>
        (\<forall>j<length (lessons (modules ?c ! i)).
           (if module_id (modules ?c ! i) = ''m1'' \<and>
               lesson_id (lessons (modules ?c ! i) ! j) = ''l1''
            then (\<exists>lquiz'.
                    lesson_quiz (lessons (modules c' ! i) ! j) = Some lquiz' \<and>
                    length lquiz' =
                      Suc (length (case lesson_quiz (lessons (modules ?c ! i) ! j) of
                                     None \<Rightarrow> [] | Some lquiz \<Rightarrow> lquiz)) \<and>
                    butlast lquiz' =
                      (case lesson_quiz (lessons (modules ?c ! i) ! j) of
                         None \<Rightarrow> [] | Some lquiz \<Rightarrow> lquiz) \<and>
                    last lquiz' = newQuestion) \<and>
                 (lessons (modules c' ! i) ! j)
                   \<lparr>lesson_quiz := lesson_quiz (lessons (modules ?c ! i) ! j)\<rparr> =
                 lessons (modules ?c ! i) ! j
            else lessons (modules c' ! i) ! j = lessons (modules ?c ! i) ! j))"
    by blast
  from r s have m0: "(modules c' ! 0)\<lparr>lessons := lessons (modules ?c ! 0)\<rparr> = modules ?c ! 0"
    and "\<exists>lquiz'. lesson_quiz (lessons (modules c' ! 0) ! 0) = Some lquiz' \<and>
           length lquiz' = Suc 0 \<and> last lquiz' = newQuestion"
    by auto
  then obtain lquiz' where q: "lesson_quiz (lessons (modules c' ! 0) ! 0) = Some lquiz'"
    "length lquiz' = Suc 0" "last lquiz' = newQuestion" by blast
  then have "lquiz' = [newQuestion]"
    by (cases lquiz') auto
  moreover from m0 s have "module_id (modules c' ! 0) = ''m1''"
    by (metis Module.select_convs(1) Module.surjective Module.update_convs(3))
  ultimately show ?thesis using c' q by blast
qed

subsection \<open>Audio decoding\<close>

declare frame_loop.simps [simp del] channel_loop.simps [simp del]

lemma frame_loop_length:
  "length (frame_loop data numChannels channel frameCount i cd) = length cd"
proof (induction data numChannels channel frameCount i cd rule: frame_loop.induct)
  case (1 data numChannels channel frameCount i cd)
  show ?case
  proof (cases "of_nat i < frameCount")
    case True
    with "1.IH" show ?thesis
      by (subst frame_loop.simps) (simp add: typed_array_set_def)
  next
    case False
    then show ?thesis by (subst frame_loop.simps) simp
  qed
qed

lemma frame_loop_nth:
  "j < length cd \<Longrightarrow>
   frame_loop data numChannels channel frameCount i cd ! j =
     (if i \<le> j \<and> of_nat j < frameCount
      then div_32768 (dataInt16 data (j * numChannels + channel))
      else cd ! j)"
proof (induction data numChannels channel frameCount i cd rule: frame_loop.induct)
  case (1 data numChannels channel frameCount i cd)
  show ?case
  proof (cases "of_nat i < frameCount")
    case True
    let ?cd = "typed_array_set cd i (div_32768 (dataInt16 data (i * numChannels + channel)))"
    have len: "j < length ?cd"
      using "1.prems" by (simp add: typed_array_set_def)
    have "frame_loop data numChannels channel frameCount i cd ! j =
          frame_loop data numChannels channel frameCount (Suc i) ?cd ! j"
      using True by (subst frame_loop.simps) simp
    also have "\<dots> = (if Suc i \<le> j \<and> of_nat j < frameCount
                      then div_32768 (dataInt16 data (j * numChannels + channel))
                      else ?cd ! j)"
      using "1.IH" [OF True len] .
    also have "\<dots> = (if i \<le> j \<and> of_nat j < frameCount
                      then div_32768 (dataInt16 data (j * numChannels + channel))
                      else cd ! j)"
      using True "1.prems" by (cases "i = j") (auto simp: typed_array_set_def nth_list_update)
    finally show ?thesis .
  next
    case False
    have "\<not> (i \<le> j \<and> of_nat j < frameCount)"
    proof
      assume a: "i \<le> j \<and> of_nat j < frameCount"
      then have "(of_nat i :: rat) \<le> of_nat j" by simp
      with a False show False by simp
    qed
    then have "(if i \<le> j \<and> of_nat j < frameCount
                then div_32768 (dataInt16 data (j * numChannels + channel))
                else cd ! j) = cd ! j"
      by (simp only: if_False)
    moreover have "frame_loop data numChannels channel frameCount i cd = cd"
      using False by (subst frame_loop.simps) simp
    ultimately show ?thesis by simp
  qed
qed

lemma channel_loop_length:
  "length (channel_loop data numChannels frameCount channel chs) = length chs"
proof (induction data numChannels frameCount channel chs rule: channel_loop.induct)
  case (1 data numChannels frameCount channel chs)
  then show ?case
    by (subst channel_loop.simps) simp
qed

lemma channel_loop_nth:
  "c < length chs \<Longrightarrow>
   channel_loop data numChannels frameCount channel chs ! c =
     (if channel \<le> c \<and> c < numChannels
      then frame_loop data numChannels c frameCount 0 (chs ! c)
      else chs ! c)"
proof (induction data numChannels frameCount channel chs rule: channel_loop.induct)
  case (1 data numChannels frameCount channel chs)
  show ?case
  proof (cases "channel < numChannels")
    case True
    let ?chs = "chs[channel := frame_loop data numChannels channel frameCount 0 (chs ! channel)]"
    have "channel_loop data numChannels frameCount channel chs ! c =
          channel_loop data numChannels frameCount (Suc channel) ?chs ! c"
      using True by (subst channel_loop.simps) simp
    also have "\<dots> = (if Suc channel \<le> c \<and> c < numChannels
                      then frame_loop data numChannels c frameCount 0 (?chs ! c)
                      else ?chs ! c)"
      using "1.IH" [OF True] "1.prems" by simp
    also have "\<dots> = (if channel \<le> c \<and> c < numChannels
                      then frame_loop data numChannels c frameCount 0 (chs ! c)
                      else chs ! c)"
      using True "1.prems" by (cases "channel = c") (auto simp: nth_list_update)
    finally show ?thesis .
  next
    case False
    then have "channel_loop data numChannels frameCount channel chs = chs"
      by (subst channel_loop.simps) simp
    moreover from False have "\<not> (channel \<le> c \<and> c < numChannels)" by simp
    ultimately show ?thesis by auto
  qed
qed

text \<open>The samples the decoder is meant to produce: channel \<open>c\<close>, frame \<open>i\<close>.\<close>

lemma whole_frames_in_range:
  assumes "i < n div numChannels" and "c < numChannels"
  shows "i * numChannels + c < (n::nat)"
proof -
  have "i * numChannels + c < Suc i * numChannels" using assms(2) by simp
  also have "\<dots> \<le> (n div numChannels) * numChannels"
    using assms(1) by (intro mult_le_mono1) simp
  also have "\<dots> \<le> n" by simp
  finally show ?thesis .
qed

lemma below_frameCount:
  assumes "i < n div numChannels"
  shows "(of_nat i :: rat) < of_nat n / of_nat numChannels"
proof -
  have "int i < \<lfloor>of_nat n / of_nat numChannels :: rat\<rfloor>"
    using assms by (simp add: floor_divide_of_nat_eq)
  then have "(of_int (int i) :: rat) < of_nat n / of_nat numChannels"
    by (simp add: less_floor_iff del: of_int_of_nat_eq)
  then show ?thesis by simp
qed

lemma decodeAudioData_closed_form:
  assumes ev: "even (length data)" and nc: "0 < numChannels"
    and nf: "0 < length data div 2 div numChannels"
  shows "decodeAudioData data sampleRate numChannels =
           Inr \<lparr>buf_sampleRate = sampleRate,
                channelData =
                  map (\<lambda>c. map (\<lambda>i. Sample (of_int (int16At data (i * numChannels + c)) / 32768))
                              [0..<length data div 2 div numChannels])
                      [0..<numChannels]\<rparr>"
proof -
  let ?n = "length data div 2"
  let ?fc = "of_nat ?n / of_nat numChannels :: rat"
  let ?nf = "?n div numChannels"
  let ?zero = "replicate numChannels (replicate ?nf (Sample 0))"
  have fl: "nat \<lfloor>?fc\<rfloor> = ?nf"
    by (simp add: floor_divide_of_nat_eq)
  have cb: "createBuffer numChannels ?fc sampleRate =
              Inr \<lparr>buf_sampleRate = sampleRate, channelData = ?zero\<rparr>"
    using nc nf by (simp add: createBuffer_def Let_def fl)
  have "channel_loop data numChannels ?fc 0 ?zero =
          map (\<lambda>c. map (\<lambda>i. Sample (of_int (int16At data (i * numChannels + c)) / 32768)) [0..<?nf])
              [0..<numChannels]"
  proof (rule nth_equalityI)
    show "length (channel_loop data numChannels ?fc 0 ?zero) =
          length (map (\<lambda>c. map (\<lambda>i. Sample (of_int (int16At data (i * numChannels + c)) / 32768)) [0..<?nf])
              [0..<numChannels])"
      by (simp add: channel_loop_length)
  next
    fix c assume "c < length (channel_loop data numChannels ?fc 0 ?zero)"
    then have c: "c < numChannels" by (simp add: channel_loop_length)
    have "channel_loop data numChannels ?fc 0 ?zero ! c =
            frame_loop data numChannels c ?fc 0 (replicate ?nf (Sample 0))"
      using c by (simp add: channel_loop_nth)
    also have "\<dots> = map (\<lambda>i. Sample (of_int (int16At data (i * numChannels + c)) / 32768)) [0..<?nf]"
    proof (rule nth_equalityI)
      show "length (frame_loop data numChannels c ?fc 0 (replicate ?nf (Sample 0))) =
            length (map (\<lambda>i. Sample (of_int (int16At data (i * numChannels + c)) / 32768)) [0..<?nf])"
        by (simp add: frame_loop_length)
    next
      fix i assume "i < length (frame_loop data numChannels c ?fc 0 (replicate ?nf (Sample 0)))"
      then have i: "i < ?nf" by (simp add: frame_loop_length)
      from whole_frames_in_range [OF i c] have "dataInt16 data (i * numChannels + c) =
          Some (int16At data (i * numChannels + c))"
        by (simp add: dataInt16_def)
      with i below_frameCount [OF i]
      show "frame_loop data numChannels c ?fc 0 (replicate ?nf (Sample 0)) ! i =
            map (\<lambda>i. Sample (of_int (int16At data (i * numChannels + c)) / 32768)) [0..<?nf] ! i"
        by (simp add: frame_loop_nth div_32768_def)
    qed
    finally show "channel_loop data numChannels ?fc 0 ?zero ! c =
        map (\<lambda>c. map (\<lambda>i. Sample (of_int (int16At data (i * numChannels + c)) / 32768)) [0..<?nf])
              [0..<numChannels] ! c"
      using c by simp
  qed
  with ev cb show ?thesis
    by (simp add: decodeAudioData_def Let_def)
qed

lemma int16At_range: "- 32768 \<le> int16At data k \<and> int16At data k \<le> 32767"
proof -
  have "- (2 ^ (LENGTH(16) - 1)) \<le> sint w \<and> sint w < 2 ^ (LENGTH(16) - 1)" for w :: "16 word"
    using sint_ge [of w] sint_lt [of w] by simp
  from this [of "push_bit 8 (ucast (data ! (2 * k + 1))) OR ucast (data ! (2 * k))"]
  show ?thesis by (simp add: int16At_def)
qed

text \<open>
  C2 as stated fails at the empty byte sequence. It is well-formed PCM for one channel (its
  length, 0, is a multiple of 2), but \<^verbatim>\<open>decodeAudioData\<close> asks \<^verbatim>\<open>createBuffer\<close> for a buffer of
  zero frames, which throws: no sample array is produced.
\<close>

theorem decodeAudioData_empty_counterexample:
  "length ([] :: byte list) mod (2 * 1) = 0 \<and>
   decodeAudioData [] 24000 1 = Inl NotSupportedError"
  by (simp add: decodeAudioData_def createBuffer_def)

text \<open>
  C2, amended. For a non-empty byte sequence that holds signed 16-bit little-endian
  interleaved samples for \<open>numChannels\<close> channels (one channel at least, a length that is a
  multiple of \<open>2 * numChannels\<close>), \<^verbatim>\<open>decodeAudioData\<close> returns a buffer of
  \<open>numChannels\<close> channels; the number of 16-bit samples is the frame count times the number
  of channels; every channel has that many frames (samples divided by channels), and frame
  \<open>i\<close> of channel \<open>c\<close> is the 16-bit integer at sample \<open>i * numChannels + c\<close> divided by
  32768, a value in \<open>[-1, 1)\<close>. A 16-bit 0 decodes to 0 and 32767 to 32767/32768.
\<close>

theorem decodeAudioData_samples:
  assumes "0 < numChannels" and "length data mod (2 * numChannels) = 0" and "data \<noteq> []"
  shows "\<exists>buffer.
           decodeAudioData data sampleRate numChannels = Inr buffer \<and>
           length (channelData buffer) = numChannels \<and>
           length data div 2 = (length data div 2 div numChannels) * numChannels \<and>
           (\<forall>c<numChannels.
              length (channelData buffer ! c) = length data div 2 div numChannels \<and>
              (\<forall>i<length data div 2 div numChannels.
                 \<exists>v. channelData buffer ! c ! i = Sample v \<and>
                     v = of_int (int16At data (i * numChannels + c)) / 32768 \<and>
                     - 1 \<le> v \<and> v < 1)) \<and>
           div_32768 (Some 0) = Sample 0 \<and>
           div_32768 (Some 32767) = Sample (32767 / 32768)"
proof -
  let ?n = "length data div 2"
  let ?nf = "?n div numChannels"
  from assms(2) have "2 * numChannels dvd length data"
    by (simp add: mod_eq_0_iff_dvd)
  then obtain k where k: "length data = 2 * numChannels * k" ..
  have ev: "even (length data)"
    by (simp add: k)
  have n: "?n = numChannels * k"
    by (simp add: k)
  have ex: "?n = ?nf * numChannels"
    using assms(1) by (simp add: n)
  from assms(3) have "0 < length data" by simp
  with k have "0 < k" by (cases k) simp_all
  with assms(1) have nf: "0 < ?nf"
    by (simp add: n)
  note cf = decodeAudioData_closed_form [OF ev assms(1) nf, of sampleRate]
  let ?buffer = "\<lparr>buf_sampleRate = sampleRate,
                channelData =
                  map (\<lambda>c. map (\<lambda>i. Sample (of_int (int16At data (i * numChannels + c)) / 32768))
                              [0..<?nf])
                      [0..<numChannels]\<rparr>"
  have bound: "- 1 \<le> (of_int (int16At data k) / 32768 :: rat) \<and>
               (of_int (int16At data k) / 32768 :: rat) < 1" for k
  proof -
    from int16At_range [of data k]
    have "(of_int (- 32768) :: rat) \<le> of_int (int16At data k)"
      "(of_int (int16At data k) :: rat) \<le> of_int 32767"
      by (simp_all only: of_int_le_iff)
    then show ?thesis by simp
  qed
  have len: "length (channelData ?buffer) = numChannels" by simp
  have chl: "length (channelData ?buffer ! c) = ?nf" if "c < numChannels" for c
    using that by simp
  have el: "channelData ?buffer ! c ! i =
              Sample (of_int (int16At data (i * numChannels + c)) / 32768)"
    if "c < numChannels" "i < ?nf" for c i
    using that by simp
  have "\<forall>c<numChannels.
              length (channelData ?buffer ! c) = ?nf \<and>
              (\<forall>i<?nf.
                 \<exists>v. channelData ?buffer ! c ! i = Sample v \<and>
                     v = of_int (int16At data (i * numChannels + c)) / 32768 \<and>
                     - 1 \<le> v \<and> v < 1)"
    using chl el bound by blast
  with len have "length (channelData ?buffer) = numChannels \<and>
           (\<forall>c<numChannels.
              length (channelData ?buffer ! c) = ?nf \<and>
              (\<forall>i<?nf.
                 \<exists>v. channelData ?buffer ! c ! i = Sample v \<and>
                     v = of_int (int16At data (i * numChannels + c)) / 32768 \<and>
                     - 1 \<le> v \<and> v < 1))" ..
  moreover have "div_32768 (Some 0) = Sample 0" "div_32768 (Some 32767) = Sample (32767 / 32768)"
    by (simp_all add: div_32768_def)
  ultimately show ?thesis using cf ex by blast
qed

theorem decodeAudioData_samples_witness:
  "\<exists>buffer.
     decodeAudioData [0, 0, 0xFF, 0x7F, 0x00, 0x80, 0xFF, 0xFF] 24000 2 = Inr buffer \<and>
     length (channelData buffer) = 2 \<and>
     length (channelData buffer ! 0) = 2 \<and>
     channelData buffer ! 0 ! 0 = Sample 0 \<and>
     channelData buffer ! 1 ! 0 = Sample (32767 / 32768) \<and>
     channelData buffer ! 0 ! 1 = Sample (- 1) \<and>
     channelData buffer ! 1 ! 1 = Sample (- 1 / 32768)"
proof -
  let ?data = "[0, 0, 0xFF, 0x7F, 0x00, 0x80, 0xFF, 0xFF] :: byte list"
  have h: "0 < (2::nat)" "length ?data mod (2 * 2) = 0" "?data \<noteq> []" by simp_all
  have nf: "length ?data div 2 div 2 = 2" by simp
  have s: "int16At ?data (0 * 2 + 0) = 0" "int16At ?data (0 * 2 + 1) = 32767"
    "int16At ?data (1 * 2 + 0) = - 32768" "int16At ?data (1 * 2 + 1) = - 1"
    by (simp_all add: int16At_def)
  from decodeAudioData_samples [OF h, of 24000] obtain buffer where
    b: "decodeAudioData ?data 24000 2 = Inr buffer"
    and l: "length (channelData buffer) = 2"
    and r: "\<forall>c<2. length (channelData buffer ! c) = length ?data div 2 div 2 \<and>
              (\<forall>i<length ?data div 2 div 2.
                 \<exists>v. channelData buffer ! c ! i = Sample v \<and>
                     v = of_int (int16At ?data (i * 2 + c)) / 32768 \<and>
                     - 1 \<le> v \<and> v < 1)"
    by blast
  have r': "length (channelData buffer ! c) = 2 \<and>
            channelData buffer ! c ! i = Sample (of_int (int16At ?data (i * 2 + c)) / 32768)"
    if "c < 2" "i < 2" for c i
    using r that unfolding nf by blast
  have "length (channelData buffer ! 0) = 2"
    "channelData buffer ! 0 ! 0 = Sample 0"
    "channelData buffer ! 1 ! 0 = Sample (32767 / 32768)"
    "channelData buffer ! 0 ! 1 = Sample (- 1)"
    "channelData buffer ! 1 ! 1 = Sample (- 1 / 32768)"
    using r' [of 0 0] r' [of 1 0] r' [of 0 1] r' [of 1 1] unfolding s by simp_all
  with b l show ?thesis by blast
qed

lemma decodeAudioData_odd:
  "odd (length data) \<Longrightarrow> decodeAudioData data sampleRate numChannels = Inl RangeError"
  by (simp add: decodeAudioData_def)

lemma decodeAudioData_no_frame:
  assumes "even (length data)" and "length data div 2 div numChannels = 0"
  shows "decodeAudioData data sampleRate numChannels = Inl NotSupportedError"
proof -
  have "nat \<lfloor>of_nat (length data div 2) / of_nat numChannels :: rat\<rfloor> = 0"
    using assms(2) by (simp add: floor_divide_of_nat_eq)
  then show ?thesis
    using assms(1) by (simp add: decodeAudioData_def createBuffer_def Let_def)
qed

lemma decodeAudioData_truncates:
  assumes ev: "even (length data)" and nc: "0 < numChannels"
    and nf: "0 < length data div 2 div numChannels"
  shows "decodeAudioData (take (2 * numChannels * (length data div 2 div numChannels)) data)
           sampleRate numChannels =
         decodeAudioData data sampleRate numChannels"
proof -
  let ?nf = "length data div 2 div numChannels"
  let ?m = "2 * numChannels * ?nf"
  have "numChannels * ?nf \<le> length data div 2"
    by (simp add: mult.commute)
  then have m: "?m \<le> length data" by linarith
  then have len: "length (take ?m data) = ?m" by simp
  have ev': "even (length (take ?m data))"
    unfolding len by simp
  have half: "length (take ?m data) div 2 = numChannels * ?nf"
    unfolding len by simp
  have nf': "length (take ?m data) div 2 div numChannels = ?nf"
    unfolding half using nc by simp
  have same: "int16At (take ?m data) (i * numChannels + c) = int16At data (i * numChannels + c)"
    if "i < ?nf" "c < numChannels" for i c
  proof -
    have "i * numChannels + c < (numChannels * ?nf)"
      using whole_frames_in_range [of i "numChannels * ?nf" numChannels c] that nc by simp
    then have "2 * (i * numChannels + c) + 1 < ?m" by simp
    then show ?thesis by (simp add: int16At_def)
  qed
  have "decodeAudioData (take ?m data) sampleRate numChannels =
          Inr \<lparr>buf_sampleRate = sampleRate,
                channelData =
                  map (\<lambda>c. map (\<lambda>i. Sample (of_int (int16At (take ?m data) (i * numChannels + c)) / 32768))
                              [0..<?nf])
                      [0..<numChannels]\<rparr>"
    using decodeAudioData_closed_form [OF ev' nc, of sampleRate] nf unfolding nf' by simp
  also have "\<dots> = Inr \<lparr>buf_sampleRate = sampleRate,
                channelData =
                  map (\<lambda>c. map (\<lambda>i. Sample (of_int (int16At data (i * numChannels + c)) / 32768))
                              [0..<?nf])
                      [0..<numChannels]\<rparr>"
    using same by simp
  also have "\<dots> = decodeAudioData data sampleRate numChannels"
    using decodeAudioData_closed_form [OF ev nc nf, of sampleRate] by simp
  finally show ?thesis .
qed

text \<open>
  C6 as stated fails: a byte sequence of odd length is not decoded at all. One byte for one
  channel is not a multiple of \<open>numChannels * 2\<close>, and the \<^verbatim>\<open>Int16Array\<close> view raises.
\<close>

theorem decodeAudioData_total_counterexample:
  "length [0 :: byte] mod (1 * 2) \<noteq> 0 \<and> decodeAudioData [0] 24000 1 = Inl RangeError"
  by (simp add: decodeAudioData_def)

text \<open>
  C6, amended. For a byte sequence whose length is not a multiple of \<open>numChannels * 2\<close>
  (one channel at least) the outcome depends on the length only. An odd length raises
  \<^verbatim>\<open>RangeError\<close>. An even length that holds no whole frame raises \<^verbatim>\<open>NotSupportedError\<close>.
  Any other even length is decoded, and the result is the result for the sequence cut after
  its last whole frame: the trailing partial frame is dropped.
\<close>

theorem decodeAudioData_partial_frame:
  assumes "0 < numChannels" and "length data mod (numChannels * 2) \<noteq> 0"
  shows "if odd (length data)
         then decodeAudioData data sampleRate numChannels = Inl RangeError
         else if length data div 2 div numChannels = 0
         then decodeAudioData data sampleRate numChannels = Inl NotSupportedError
         else (\<exists>buffer.
                 decodeAudioData data sampleRate numChannels = Inr buffer \<and>
                 decodeAudioData
                   (take (2 * numChannels * (length data div 2 div numChannels)) data)
                   sampleRate numChannels = Inr buffer \<and>
                 length (channelData buffer) = numChannels \<and>
                 list_all (\<lambda>ch. length ch = length data div 2 div numChannels)
                   (channelData buffer))"
proof (cases "odd (length data)")
  case True
  then show ?thesis by (simp add: decodeAudioData_odd)
next
  case ev: False
  show ?thesis
  proof (cases "length data div 2 div numChannels = 0")
    case True
    with ev show ?thesis by (simp add: decodeAudioData_no_frame)
  next
    case False
    then have nf: "0 < length data div 2 div numChannels" by simp
    from ev have ev': "even (length data)" by simp
    note cf = decodeAudioData_closed_form [OF ev' assms(1) nf, of sampleRate]
    note tr = decodeAudioData_truncates [OF ev' assms(1) nf, of sampleRate]
    have "\<exists>buffer.
                 decodeAudioData data sampleRate numChannels = Inr buffer \<and>
                 decodeAudioData
                   (take (2 * numChannels * (length data div 2 div numChannels)) data)
                   sampleRate numChannels = Inr buffer \<and>
                 length (channelData buffer) = numChannels \<and>
                 list_all (\<lambda>ch. length ch = length data div 2 div numChannels)
                   (channelData buffer)"
      unfolding tr cf by (simp add: list_all_iff)
    with ev False show ?thesis by simp
  qed
qed

theorem decodeAudioData_partial_frame_witness:
  "\<exists>buffer.
     decodeAudioData [0, 0, 0xFF, 0x7F, 1, 0] 24000 2 = Inr buffer \<and>
     decodeAudioData [0, 0, 0xFF, 0x7F] 24000 2 = Inr buffer \<and>
     length (channelData buffer) = 2"
proof -
  let ?data = "[0, 0, 0xFF, 0x7F, 1, 0] :: byte list"
  have h: "0 < (2::nat)" "length ?data mod (2 * 2) \<noteq> 0" by simp_all
  have c: "\<not> odd (length ?data)" "length ?data div 2 div 2 \<noteq> 0"
    "take (2 * 2 * (length ?data div 2 div 2)) ?data = [0, 0, 0xFF, 0x7F]"
    by simp_all
  from decodeAudioData_partial_frame [OF h, of 24000]
  have "\<exists>buffer.
          decodeAudioData ?data 24000 2 = Inr buffer \<and>
          decodeAudioData (take (2 * 2 * (length ?data div 2 div 2)) ?data) 24000 2 = Inr buffer \<and>
          length (channelData buffer) = 2 \<and>
          list_all (\<lambda>ch. length ch = length ?data div 2 div 2) (channelData buffer)"
    by (simp only: c if_False)
  then show ?thesis unfolding c by blast
qed

subsection \<open>Playback controller\<close>

lemma exclusive_initial: "exclusive initial_player"
  by (simp add: exclusive_def initial_player_def)

lemma stopAudio_silent: "exclusive st \<Longrightarrow> sounding (stopAudio st) = {}"
  by (auto simp: exclusive_def stopAudio_def split: option.splits)

lemma stopAudio_created: "created (stopAudio st) = created st"
  by (simp add: stopAudio_def split: option.splits)

lemma exclusive_stopAudio: "exclusive st \<Longrightarrow> exclusive (stopAudio st)"
  by (auto simp: exclusive_def stopAudio_def split: option.splits)

lemma exclusive_flag: "exclusive (st\<lparr>isPlaying := b\<rparr>) = exclusive st"
  by (simp add: exclusive_def)

lemma exclusive_awaiting: "exclusive (st\<lparr>awaiting := a\<rparr>) = exclusive st"
  by (simp add: exclusive_def)

lemma exclusive_call: "exclusive st \<Longrightarrow> exclusive (toggleAudio_call st audio)"
  by (auto simp: toggleAudio_call_def exclusive_flag exclusive_stopAudio split: option.splits)
     (simp add: exclusive_def)

lemma resume_started:
  assumes "exclusive st"
  shows "toggleAudio_resume st (Inr buffer) =
           (stopAudio st)\<lparr>created := Suc (created st), sounding := {created st},
                           audioSourceRef := Some (created st), isPlaying := True\<rparr>"
  using stopAudio_silent [OF assms]
  by (simp add: toggleAudio_resume_def Let_def stopAudio_created)

lemma exclusive_resume: "exclusive st \<Longrightarrow> exclusive (toggleAudio_resume st outcome)"
proof (cases outcome)
  case (Inl err)
  assume "exclusive st"
  with Inl show ?thesis by (simp add: toggleAudio_resume_def)
next
  case (Inr buffer)
  assume "exclusive st"
  from resume_started [OF this, of buffer] Inr show ?thesis
    by (simp add: exclusive_def)
qed

lemma exclusive_step: "exclusive st \<Longrightarrow> exclusive (player_step st ev)"
proof (cases ev)
  case (ToggleAudio audio)
  assume "exclusive st"
  with ToggleAudio show ?thesis by (simp add: exclusive_call)
next
  case DecodeSettled
  assume "exclusive st"
  with DecodeSettled show ?thesis
    by (simp add: exclusive_resume exclusive_awaiting split: list.splits)
next
  case (SourceEnded source)
  assume "exclusive st"
  with SourceEnded show ?thesis by (auto simp: exclusive_def)
next
  case StepChanged
  assume "exclusive st"
  with StepChanged show ?thesis by (simp add: exclusive_stopAudio exclusive_flag)
qed

lemma exclusive_foldl: "exclusive st \<Longrightarrow> exclusive (foldl player_step st events)"
  by (induction events arbitrary: st) (simp_all add: exclusive_step)

lemma exclusive_run: "exclusive (player_run events)"
  by (simp add: player_run_def exclusive_foldl exclusive_initial)

lemma exclusive_card: "exclusive st \<Longrightarrow> finite (sounding st) \<and> card (sounding st) \<le> 1"
proof -
  assume "exclusive st"
  then have sub: "sounding st \<subseteq> set_option (audioSourceRef st)"
    by (auto simp: exclusive_def)
  have fin: "finite (set_option (audioSourceRef st))"
    by (cases "audioSourceRef st") simp_all
  have "card (set_option (audioSourceRef st)) \<le> 1"
    by (cases "audioSourceRef st") simp_all
  with card_mono [OF fin sub] finite_subset [OF sub fin] show ?thesis by simp
qed

text \<open>
  C8. In every state the player can reach, at most one audio source is sounding, and it is the
  one held in \<^verbatim>\<open>audioSourceRef\<close>. Starting a clip (the resumed \<^verbatim>\<open>toggleAudio\<close>) first runs
  \<^verbatim>\<open>stopAudio\<close>, after which nothing sounds, and then starts a node that did not exist before:
  afterwards exactly that node sounds. \<^verbatim>\<open>stopAudio\<close> with no source held changes nothing, and
  with nothing sounding it only clears the ref; it never raises.
\<close>

theorem player_at_most_one_source:
  "card (sounding (player_run events)) \<le> 1 \<and>
   finite (sounding (player_run events)) \<and>
   sounding (player_run events) \<subseteq> set_option (audioSourceRef (player_run events)) \<and>
   sounding (stopAudio (player_run events)) = {} \<and>
   created (player_run events) \<notin> sounding (player_run events) \<and>
   sounding (toggleAudio_resume (player_run events) (Inr buffer)) = {created (player_run events)} \<and>
   audioSourceRef (toggleAudio_resume (player_run events) (Inr buffer)) =
     Some (created (player_run events)) \<and>
   (audioSourceRef (player_run events) = None \<longrightarrow>
      stopAudio (player_run events) = player_run events) \<and>
   (sounding (player_run events) = {} \<longrightarrow>
      stopAudio (player_run events) = (player_run events)\<lparr>audioSourceRef := None\<rparr>)"
proof -
  let ?st = "player_run events"
  have ex: "exclusive ?st" by (rule exclusive_run)
  note c = exclusive_card [OF ex]
  have sub: "sounding ?st \<subseteq> set_option (audioSourceRef ?st)"
    using ex by (auto simp: exclusive_def)
  have fresh: "created ?st \<notin> sounding ?st"
    using ex by (auto simp: exclusive_def)
  note st = stopAudio_silent [OF ex]
  note rs = resume_started [OF ex, of buffer]
  have n1: "stopAudio ?st = ?st" if "audioSourceRef ?st = None"
    using that by (simp add: stopAudio_def)
  have n2: "stopAudio ?st = ?st\<lparr>audioSourceRef := None\<rparr>" if "sounding ?st = {}"
    using that by (simp add: stopAudio_def split: option.splits)
  from c sub fresh st n1 n2 show ?thesis
    unfolding rs by simp
qed

theorem player_at_most_one_source_witness:
  "card (sounding (player_run
     [ToggleAudio (Some (Inr \<lparr>buf_sampleRate = 24000, channelData = [[Sample 0]]\<rparr>)),
      ToggleAudio (Some (Inr \<lparr>buf_sampleRate = 24000, channelData = [[Sample 0]]\<rparr>)),
      DecodeSettled, DecodeSettled])) \<le> 1 \<and>
   sounding (player_run
     [ToggleAudio (Some (Inr \<lparr>buf_sampleRate = 24000, channelData = [[Sample 0]]\<rparr>)),
      ToggleAudio (Some (Inr \<lparr>buf_sampleRate = 24000, channelData = [[Sample 0]]\<rparr>)),
      DecodeSettled, DecodeSettled]) = {1} \<and>
   audioSourceRef (player_run []) = None \<and>
   stopAudio (player_run []) = player_run []"
proof -
  let ?b = "\<lparr>buf_sampleRate = 24000, channelData = [[Sample 0]]\<rparr>"
  let ?evs = "[ToggleAudio (Some (Inr ?b)), ToggleAudio (Some (Inr ?b)), DecodeSettled, DecodeSettled]"
  have r: "player_run ?evs =
      \<lparr>isPlaying = True, audioSourceRef = Some 1, audioContextRef = True, created = 2,
       sounding = {1}, awaiting = []\<rparr>"
    by (simp add: player_run_def initial_player_def toggleAudio_call_def toggleAudio_resume_def
        stopAudio_def Let_def)
  have n: "audioSourceRef (player_run []) = None"
    by (simp add: player_run_def initial_player_def)
  from player_at_most_one_source [of ?evs ?b]
  have "card (sounding (player_run ?evs)) \<le> 1" by blast
  moreover from player_at_most_one_source [of "[]" ?b] n
  have "stopAudio (player_run []) = player_run []" by blast
  moreover from r have "sounding (player_run ?evs) = {1}" by simp
  ultimately show ?thesis using n by blast
qed

subsection \<open>Number arithmetic\<close>

subsection \<open>Number arithmetic\<close>

declare halvings.simps [simp del] doublings.simps [simp del]

lemma halvings_bounds: "1 \<le> x \<Longrightarrow> 2 ^ halvings x \<le> x \<and> x < 2 ^ Suc (halvings x)"
proof (induction x rule: halvings.induct)
  case (1 x)
  show ?case
  proof (cases "2 \<le> x")
    case True
    then have h: "halvings x = Suc (halvings (x / 2))"
      by (subst halvings.simps) simp
    from True have "1 \<le> x / 2" by simp
    from "1.IH" [OF True this]
    have "2 ^ halvings (x / 2) \<le> x / 2" "x / 2 < 2 ^ Suc (halvings (x / 2))" by simp_all
    then have "2 * 2 ^ halvings (x / 2) \<le> x" "x < 2 * 2 ^ Suc (halvings (x / 2))"
      by linarith+
    then show ?thesis by (simp add: h)
  next
    case False
    then have "halvings x = 0" by (subst halvings.simps) simp
    with False "1.prems" show ?thesis by simp
  qed
qed

lemma doublings_bounds:
  "0 < x \<Longrightarrow> x < 1 \<Longrightarrow> 1 \<le> x * 2 ^ doublings x \<and> x * 2 ^ doublings x < 2"
proof (induction x rule: doublings.induct)
  case (1 x)
  from "1.prems" have d: "doublings x = Suc (doublings (2 * x))"
    by (subst doublings.simps) simp
  show ?case
  proof (cases "2 * x < 1")
    case True
    from "1.prems" have "0 < 2 * x" by simp
    from "1.IH" [OF _ this True] "1.prems"
    have "1 \<le> 2 * x * 2 ^ doublings (2 * x) \<and> 2 * x * 2 ^ doublings (2 * x) < 2" by simp
    then show ?thesis by (simp add: d mult_ac)
  next
    case False
    then have "doublings (2 * x) = 0" by (subst doublings.simps) simp
    with False "1.prems" show ?thesis by (simp add: d)
  qed
qed

lemma exponent_bounds:
  assumes "0 < x"
  shows "2 powi exponent x \<le> x \<and> x < 2 powi (exponent x + 1)"
proof (cases "1 \<le> x")
  case True
  then have e: "exponent x = int (halvings x)" by (simp add: exponent_def)
  have "(2::rat) powi (int (halvings x) + 1) = 2 ^ Suc (halvings x)"
    by (simp add: power_int_add)
  with halvings_bounds [OF True] show ?thesis
    by (simp add: e power_int_of_nat)
next
  case False
  then have lt: "x < 1" by simp
  then have e: "exponent x = - int (doublings x)" by (simp add: exponent_def)
  note b = doublings_bounds [OF assms lt]
  have p: "(2::rat) powi (- int (doublings x)) = 1 / 2 ^ doublings x"
    by (simp add: power_int_minus_divide)
  have q: "(2::rat) powi (1 - int (doublings x)) = 2 / 2 ^ doublings x"
    by (simp add: power_int_diff)
  from b have "1 / 2 ^ doublings x \<le> x" "x < 2 / 2 ^ doublings x"
    by (simp_all add: field_simps)
  then show ?thesis by (simp add: e p q)
qed

lemma exponent_unique:
  assumes "0 < x" and lo: "2 powi e \<le> x" and hi: "x < 2 powi (e + 1)"
  shows "exponent x = e"
proof -
  note b = exponent_bounds [OF assms(1)]
  have "exponent x < e + 1"
  proof (rule ccontr)
    assume "\<not> exponent x < e + 1"
    then have "(2::rat) powi (e + 1) \<le> 2 powi exponent x"
      by (intro power_int_increasing) simp_all
    with b hi show False by linarith
  qed
  moreover have "e < exponent x + 1"
  proof (rule ccontr)
    assume "\<not> e < exponent x + 1"
    then have "(2::rat) powi (exponent x + 1) \<le> 2 powi e"
      by (intro power_int_increasing) simp_all
    with b lo show False by linarith
  qed
  ultimately show ?thesis by simp
qed

lemma exponent_mono:
  assumes "0 < x" and "x \<le> y"
  shows "exponent x \<le> exponent y"
proof (rule ccontr)
  assume "\<not> exponent x \<le> exponent y"
  then have "(2::rat) powi (exponent y + 1) \<le> 2 powi exponent x"
    by (intro power_int_increasing) simp_all
  moreover from assms have "0 < y" by simp
  ultimately show False
    using exponent_bounds [OF assms(1)] exponent_bounds [OF \<open>0 < y\<close>] assms(2) by linarith
qed

lemma round_half_even_error: "\<bar>of_int (round_half_even q) - q\<bar> \<le> 1 / 2"
proof -
  have "of_int \<lfloor>q\<rfloor> \<le> q" "q < of_int \<lfloor>q\<rfloor> + 1" by linarith+
  then show ?thesis
    by (auto simp: round_half_even_def Let_def)
qed

lemma round_half_even_of_int: "round_half_even (of_int m) = m"
  by (simp add: round_half_even_def)

lemma round_half_even_bounds:
  "\<lfloor>q\<rfloor> \<le> round_half_even q \<and> round_half_even q \<le> \<lfloor>q\<rfloor> + 1"
  by (simp add: round_half_even_def Let_def)

lemma round_half_even_mono:
  assumes "q \<le> q'"
  shows "round_half_even q \<le> round_half_even q'"
proof (cases "\<lfloor>q\<rfloor> = \<lfloor>q'\<rfloor>")
  case True
  with assms have "q - of_int \<lfloor>q\<rfloor> \<le> q' - of_int \<lfloor>q'\<rfloor>" by simp
  with True show ?thesis
    by (auto simp: round_half_even_def Let_def)
next
  case False
  with floor_mono [OF assms] have "\<lfloor>q\<rfloor> + 1 \<le> \<lfloor>q'\<rfloor>" by simp
  with round_half_even_bounds [of q] round_half_even_bounds [of q'] show ?thesis
    by linarith
qed

lemma round_half_even_tie:
  assumes "even K"
  shows "round_half_even (of_int K + 1 / 2) = K" "round_half_even (of_int K - 1 / 2) = K"
proof -
  have f1: "\<lfloor>of_int K + 1 / 2 :: rat\<rfloor> = K" by linarith
  have f2: "\<lfloor>of_int K - 1 / 2 :: rat\<rfloor> = K - 1" by linarith
  from assms have o: "odd (K - 1)" by simp
  show "round_half_even (of_int K + 1 / 2) = K"
    using assms by (simp add: round_half_even_def Let_def f1)
  show "round_half_even (of_int K - 1 / 2) = K"
    using o by (simp add: round_half_even_def Let_def f2)
qed

lemma ulp_pos: "0 < ulp x"
  by (simp add: ulp_def zero_less_power_int)

lemma ulp_binade:
  assumes "0 < x" and "2 powi e \<le> x" and "x < 2 powi (e + 1)"
  shows "ulp x = 2 powi (e - 52)"
  using exponent_unique [OF assms] assms(1) by (simp add: ulp_def)

lemma fl64_binade:
  assumes "0 < x" and "2 powi e \<le> x" and "x < 2 powi (e + 1)"
  shows "fl64 x = of_int (round_half_even (x / 2 powi (e - 52))) * 2 powi (e - 52)"
  using ulp_binade [OF assms] assms(1) by (simp add: fl64_def)

lemma scaled_bounds:
  assumes "0 < x"
  shows "2 ^ 52 \<le> x / ulp x \<and> x / ulp x < 2 ^ 53"
proof -
  note b = exponent_bounds [OF assms]
  define c :: rat where "c = 2 ^ 52"
  define r where "r = x / 2 powi exponent x"
  have c: "0 < c" by (simp add: c_def)
  have u: "ulp x = 2 powi exponent x / c"
    using assms by (simp add: ulp_def power_int_diff c_def)
  have p: "(0::rat) < 2 powi exponent x" by (simp add: zero_less_power_int)
  have t: "(2::rat) powi (exponent x + 1) = 2 * 2 powi exponent x"
    by (simp add: power_int_add)
  have xr: "x / ulp x = r * c"
    by (simp add: u r_def)
  from b p have r1: "1 \<le> r" by (simp add: r_def field_simps)
  from b p t have r2: "r < 2" by (simp add: r_def field_simps)
  from r1 c have "1 * c \<le> r * c" by (intro mult_right_mono) simp_all
  moreover from r2 c have "r * c < 2 * c" by (intro mult_strict_right_mono) simp_all
  moreover have "(2::rat) ^ 53 = 2 * c" by (simp add: c_def)
  ultimately show ?thesis
    unfolding xr c_def [symmetric] by simp
qed

lemma fl64_bounds:
  assumes "0 < x"
  shows "2 powi exponent x \<le> fl64 x \<and> fl64 x \<le> 2 powi (exponent x + 1)"
proof -
  note s = scaled_bounds [OF assms]
  have u: "ulp x * 2 ^ 52 = 2 powi exponent x"
    using assms by (simp add: ulp_def power_int_diff)
  have t: "(2::rat) powi (exponent x + 1) = 2 * 2 powi exponent x"
    by (simp add: power_int_add)
  have "round_half_even (of_int (2 ^ 52)) \<le> round_half_even (x / ulp x)"
    using s by (intro round_half_even_mono) simp
  then have lo: "(2 ^ 52 :: rat) \<le> of_int (round_half_even (x / ulp x))"
    unfolding round_half_even_of_int by (metis of_int_le_iff of_int_numeral of_int_power)
  have "round_half_even (x / ulp x) \<le> round_half_even (of_int (2 ^ 53))"
    using s by (intro round_half_even_mono) simp
  then have hi: "of_int (round_half_even (x / ulp x)) \<le> (2 ^ 53 :: rat)"
    unfolding round_half_even_of_int by (metis of_int_le_iff of_int_numeral of_int_power)
  have f: "fl64 x = of_int (round_half_even (x / ulp x)) * ulp x"
    using assms by (simp add: fl64_def)
  from lo have "2 ^ 52 * ulp x \<le> fl64 x"
    unfolding f using ulp_pos [of x] by (intro mult_right_mono) simp_all
  moreover from hi have "fl64 x \<le> 2 ^ 53 * ulp x"
    unfolding f using ulp_pos [of x] by (intro mult_right_mono) simp_all
  moreover have "2 ^ 53 * ulp x = 2 * (ulp x * 2 ^ 52)" by simp
  ultimately show ?thesis
    unfolding t u [symmetric] by (simp add: mult.commute)
qed

lemma fl64_pos:
  assumes "0 < x"
  shows "0 < fl64 x"
proof -
  have "(0::rat) < 2 powi exponent x" by (simp add: zero_less_power_int)
  with fl64_bounds [OF assms] show ?thesis by linarith
qed

lemma fl64_error:
  assumes "0 < x"
  shows "\<bar>fl64 x - x\<bar> \<le> x / 2 ^ 53"
proof -
  have f: "fl64 x = of_int (round_half_even (x / ulp x)) * ulp x"
    using assms by (simp add: fl64_def)
  have "fl64 x - x = (of_int (round_half_even (x / ulp x)) - x / ulp x) * ulp x"
    using ulp_pos [of x] by (simp add: f field_simps)
  then have "\<bar>fl64 x - x\<bar> = \<bar>of_int (round_half_even (x / ulp x)) - x / ulp x\<bar> * ulp x"
    using ulp_pos [of x] by (simp add: abs_mult)
  also have "\<dots> \<le> 1 / 2 * ulp x"
    using round_half_even_error [of "x / ulp x"] ulp_pos [of x]
    by (intro mult_right_mono) simp_all
  also have "\<dots> = 2 powi exponent x / 2 ^ 53"
    using assms by (simp add: ulp_def power_int_diff)
  also have "\<dots> \<le> x / 2 ^ 53"
    using exponent_bounds [OF assms] by (simp add: divide_right_mono)
  finally show ?thesis .
qed

lemma fl64_mono:
  assumes "0 < x" and "x \<le> y"
  shows "fl64 x \<le> fl64 y"
proof -
  from assms have y: "0 < y" by simp
  note e = exponent_mono [OF assms]
  show ?thesis
  proof (cases "exponent x = exponent y")
    case True
    then have u: "ulp x = ulp y"
      using assms y by (simp add: ulp_def)
    have "x / ulp y \<le> y / ulp y"
      using assms(2) ulp_pos [of y] by (simp add: divide_right_mono)
    then have "round_half_even (x / ulp y) \<le> round_half_even (y / ulp y)"
      by (rule round_half_even_mono)
    then have "(of_int (round_half_even (x / ulp y)) :: rat) \<le> of_int (round_half_even (y / ulp y))"
      by simp
    then show ?thesis
      using assms(1) y ulp_pos [of y] by (simp add: fl64_def u mult_right_mono)
  next
    case False
    with e have "exponent x + 1 \<le> exponent y" by simp
    then have "(2::rat) powi (exponent x + 1) \<le> 2 powi exponent y"
      by (intro power_int_increasing) simp_all
    with fl64_bounds [OF assms(1)] fl64_bounds [OF y] show ?thesis by linarith
  qed
qed

lemma fl64_exact:
  assumes "0 < x" and "2 powi e \<le> x" and "x < 2 powi (e + 1)"
    and "x / 2 powi (e - 52) = of_int m"
  shows "fl64 x = x"
proof -
  have "(0::rat) < 2 powi (e - 52)" by (simp add: zero_less_power_int)
  with assms(4) have "of_int m * 2 powi (e - 52) = x" by (simp add: field_simps)
  then show ?thesis
    by (simp add: fl64_binade [OF assms(1-3)] assms(4) round_half_even_of_int)
qed

text \<open>The product \<open>n * fl64 (60 / n)\<close> is within \<open>60 / 2^53\<close> of 60.\<close>

lemma quotient_times_steps:
  assumes "0 < n"
  shows "\<bar>of_nat n * fl64 (60 / of_nat n) - 60\<bar> \<le> 60 / 2 ^ 53"
proof -
  let ?n = "of_nat n :: rat"
  from assms have n: "0 < ?n" by simp
  then have a: "0 < 60 / ?n" by simp
  have "?n * fl64 (60 / ?n) - 60 = ?n * (fl64 (60 / ?n) - 60 / ?n)"
    using n by (simp add: field_simps)
  then have "\<bar>?n * fl64 (60 / ?n) - 60\<bar> = ?n * \<bar>fl64 (60 / ?n) - 60 / ?n\<bar>"
    using n by (simp add: abs_mult)
  also have "\<dots> \<le> ?n * (60 / ?n / 2 ^ 53)"
    using fl64_error [OF a] n by (intro mult_left_mono) simp_all
  also have "\<dots> = 60 / 2 ^ 53"
    using n by simp
  finally show ?thesis .
qed

lemma final_progress_is_100:
  assumes "0 < n"
  shows "fl64 (40 + fl64 (of_nat n * fl64 (60 / of_nat n))) = 100"
proof -
  define p where "p = of_nat n * fl64 (60 / of_nat n)"
  define eps :: rat where "eps = 60 / 2 ^ 53"
  define c :: rat where "c = 2 ^ 47"
  define m where "m = round_half_even (p * c)"
  define d where "d = m - 60 * 2 ^ 47"
  have c: "0 < c" by (simp add: c_def)
  have eps: "0 \<le> eps" "eps \<le> 1" "eps * c = 15 / 16"
    by (simp_all add: eps_def c_def)
  have pe: "\<bar>p - 60\<bar> \<le> eps"
    unfolding p_def eps_def by (rule quotient_times_steps [OF assms])
  with eps have pb: "32 \<le> p" "p < 64" "0 < p" by linarith+
  have pw: "(2::rat) powi 5 = 32" "(2::rat) powi (5 + 1) = 64" by simp_all
  have u5: "(2::rat) powi (5 - 52) = 1 / c"
    by (simp add: c_def)
  have "fl64 p = of_int (round_half_even (p / (1 / c))) * (1 / c)"
    using fl64_binade [of p 5] pb by (simp only: pw u5)
  then have y: "fl64 p = of_int m / c"
    by (simp add: m_def)
  have "\<bar>p * c - 60 * c\<bar> = \<bar>p - 60\<bar> * c"
    using c by (simp add: abs_mult left_diff_distrib [symmetric])
  also have "\<dots> \<le> eps * c"
    using pe c by (intro mult_right_mono) simp_all
  finally have s: "\<bar>p * c - 60 * c\<bar> \<le> 15 / 16" by (simp only: eps)
  have r: "\<bar>of_int m - p * c\<bar> \<le> 1 / 2"
    unfolding m_def by (rule round_half_even_error)
  have md: "(of_int m :: rat) = 60 * c + of_int d"
    by (simp add: d_def c_def)
  from s r have "\<bar>of_int m - 60 * c\<bar> < 2" by linarith
  then have "\<bar>of_int d :: rat\<bar> < 2" by (simp add: md)
  then have "(of_int \<bar>d\<bar> :: rat) < of_int 2" by simp
  then have "\<bar>d\<bar> < 2" by (simp only: of_int_less_iff)
  then have dc: "d = - 1 \<or> d = 0 \<or> d = 1" by linarith
  define z where "z = 40 + fl64 p"
  have z: "z = 100 + of_int d / c"
    using c by (simp add: z_def y md field_simps)
  have ic: "1 / c \<le> 1" by (simp add: c_def)
  from dc have "\<bar>of_int d / c\<bar> \<le> 1"
    using ic c by auto
  with z have zb: "64 \<le> z" "z < 128" "0 < z" by linarith+
  have zw: "(2::rat) powi 6 = 64" "(2::rat) powi (6 + 1) = 128" by simp_all
  have u6: "(2::rat) powi (6 - 52) = 2 / c"
    by (simp add: c_def)
  have fz: "fl64 z = of_int (round_half_even (z / (2 / c))) * (2 / c)"
    using fl64_binade [of z 6] zb by (simp only: zw u6)
  have cc: "100 * c / 2 = of_int (50 * 2 ^ 47)" by (simp add: c_def)
  have "z / (2 / c) = 100 * c / 2 + of_int d / 2"
    using c by (simp add: z field_simps)
  then have sc: "z / (2 / c) = of_int (50 * 2 ^ 47) + of_int d / 2"
    by (simp only: cc)
  have ev: "even (50 * 2 ^ 47 :: int)" by simp
  have "round_half_even (z / (2 / c)) = 50 * 2 ^ 47"
    using dc
  proof (elim disjE)
    assume "d = - 1"
    then have "z / (2 / c) = of_int (50 * 2 ^ 47) - 1 / 2" unfolding sc by simp
    then show ?thesis by (simp only: round_half_even_tie(2) [OF ev])
  next
    assume "d = 0"
    then have "z / (2 / c) = of_int (50 * 2 ^ 47)" unfolding sc by simp
    then show ?thesis by (simp only: round_half_even_of_int)
  next
    assume "d = 1"
    then have "z / (2 / c) = of_int (50 * 2 ^ 47) + 1 / 2" unfolding sc by simp
    then show ?thesis by (simp only: round_half_even_tie(1) [OF ev])
  qed
  then have "fl64 z = of_int (50 * 2 ^ 47) * (2 / c)"
    by (simp only: fz)
  also have "\<dots> = 100" by (simp add: c_def)
  finally show ?thesis by (simp add: z_def p_def)
qed

lemma fl64_below_60: "fl64 (60 - 1 / 2 ^ 30) = 60 - 1 / 2 ^ 30"
  by (rule fl64_exact [where e = 5 and m = "60 * 2 ^ 47 - 2 ^ 17"]) simp_all

lemma fl64_below_100: "fl64 (100 - 1 / 2 ^ 30) = 100 - 1 / 2 ^ 30"
  by (rule fl64_exact [where e = 6 and m = "50 * 2 ^ 47 - 2 ^ 16"]) simp_all

text \<open>Before the final step the value stays below 100 (an array has fewer than \<open>2^32\<close> elements).\<close>

lemma earlier_progress_below_100:
  assumes k: "0 < k" "k < n" and n: "n \<le> 2 ^ 32"
  shows "fl64 (40 + fl64 (of_nat k * fl64 (60 / of_nat n))) < 100"
proof -
  let ?n = "of_nat n :: rat"
  let ?k = "of_nat k :: rat"
  define x where "x = fl64 (60 / ?n)"
  define eps :: rat where "eps = 60 / 2 ^ 53"
  define delta :: rat where "delta = (60 - eps) / 2 ^ 32"
  define g :: rat where "g = 1 / 2 ^ 30"
  define b :: rat where "b = 2 ^ 32"
  from k have n0: "0 < ?n" by simp
  then have "0 < 60 / ?n" by simp
  then have x0: "0 < x" unfolding x_def by (rule fl64_pos)
  from k have k0: "0 < ?k" by simp
  have b0: "0 < b" by (simp add: b_def)
  have "\<bar>?n * x - 60\<bar> \<le> eps"
    unfolding x_def eps_def using k by (intro quotient_times_steps) simp
  then have nx: "?n * x \<le> 60 + eps" and nxl: "60 - eps \<le> ?n * x" by linarith+
  from n have "(of_nat n :: rat) \<le> of_nat (2 ^ 32)" by (simp only: of_nat_le_iff)
  then have nb: "?n \<le> b" by (simp add: b_def)
  have "?n * x \<le> b * x" using nb x0 by (intro mult_right_mono) simp_all
  with nxl have "60 - eps \<le> b * x" by linarith
  then have "(60 - eps) / b \<le> x" using b0 by (simp add: field_simps)
  then have xl: "delta \<le> x" by (simp add: delta_def b_def)
  from k have "Suc k \<le> n" by simp
  then have "(of_nat (Suc k) :: rat) \<le> of_nat n" by (simp only: of_nat_le_iff)
  then have "?k + 1 \<le> ?n" by simp
  then have "(?k + 1) * x \<le> ?n * x" using x0 by (intro mult_right_mono) simp_all
  then have kx: "?k * x \<le> ?n * x - x" by (simp add: algebra_simps)
  have num: "eps + g \<le> delta" by (simp add: eps_def delta_def g_def)
  from kx nx xl num have p: "?k * x \<le> 60 - g" by linarith
  from k0 x0 have p0: "0 < ?k * x" by simp
  have "fl64 (?k * x) \<le> fl64 (60 - g)" using p0 p by (rule fl64_mono)
  then have y: "fl64 (?k * x) \<le> 60 - g" by (simp only: g_def fl64_below_60)
  have y0: "0 < fl64 (?k * x)" using p0 by (rule fl64_pos)
  then have z0: "0 < 40 + fl64 (?k * x)" by simp
  from y have "40 + fl64 (?k * x) \<le> 100 - g" by simp
  with z0 have "fl64 (40 + fl64 (?k * x)) \<le> fl64 (100 - g)" by (rule fl64_mono)
  then have "fl64 (40 + fl64 (?k * x)) \<le> 100 - g" by (simp only: g_def fl64_below_100)
  moreover have "0 < g" by (simp add: g_def)
  ultimately show ?thesis unfolding x_def by linarith
qed

text \<open>The computed value is within \<open>2^-45\<close> of the exact \<open>40 + k * (60 / n)\<close>.\<close>

lemma progress_error:
  assumes k: "0 < k" "k \<le> n"
  shows "\<bar>fl64 (40 + fl64 (of_nat k * fl64 (60 / of_nat n))) - (40 + of_nat k * (60 / of_nat n))\<bar>
           \<le> 1 / 2 ^ 45"
proof -
  let ?n = "of_nat n :: rat"
  let ?k = "of_nat k :: rat"
  define x where "x = fl64 (60 / ?n)"
  define q where "q = 60 / ?n"
  define u :: rat where "u = 1 / 2 ^ 53"
  define p where "p = ?k * x"
  define t where "t = ?k * q"
  define y where "y = fl64 p"
  define z where "z = 40 + y"
  from k have n0: "0 < ?n" by simp
  from k have k0: "0 < ?k" by simp
  have q0: "0 < q" using n0 by (simp add: q_def)
  have x0: "0 < x" unfolding x_def using q0 unfolding q_def by (rule fl64_pos)
  have u0: "0 \<le> u" "u \<le> 1 / 60" by (simp_all add: u_def)
  have "\<bar>x - q\<bar> \<le> q / 2 ^ 53"
    unfolding x_def using q0 unfolding q_def by (rule fl64_error)
  then have e0: "\<bar>x - q\<bar> \<le> q * u" by (simp add: u_def)
  from k have "(of_nat k :: rat) \<le> of_nat n" by (simp only: of_nat_le_iff)
  then have "?k * q \<le> ?n * q" using q0 by (intro mult_right_mono) simp_all
  also have "?n * q = 60" using n0 by (simp add: q_def)
  finally have t60: "t \<le> 60" by (simp add: t_def)
  have t0: "0 < t" using k0 q0 by (simp add: t_def)
  have "p - t = ?k * (x - q)" by (simp add: p_def t_def algebra_simps)
  then have "\<bar>p - t\<bar> = ?k * \<bar>x - q\<bar>" using k0 by (simp add: abs_mult)
  also have "\<dots> \<le> ?k * (q * u)" using e0 k0 by (intro mult_left_mono) simp_all
  also have "\<dots> = t * u" by (simp add: t_def)
  also have "\<dots> \<le> 60 * u" using t60 u0 by (intro mult_right_mono) simp_all
  finally have e1: "\<bar>p - t\<bar> \<le> 60 * u" .
  from e1 t60 u0 have p61: "p \<le> 61" by linarith
  have p0: "0 < p" using k0 x0 by (simp add: p_def)
  have "\<bar>y - p\<bar> \<le> p / 2 ^ 53" unfolding y_def using p0 by (rule fl64_error)
  then have "\<bar>y - p\<bar> \<le> p * u" by (simp add: u_def)
  also have "\<dots> \<le> 61 * u" using p61 u0 by (intro mult_right_mono) simp_all
  finally have e2: "\<bar>y - p\<bar> \<le> 61 * u" .
  have y0: "0 < y" unfolding y_def using p0 by (rule fl64_pos)
  then have z0: "0 < z" by (simp add: z_def)
  from e2 p61 u0 have "y \<le> 63" by linarith
  then have z103: "z \<le> 103" by (simp add: z_def)
  have "\<bar>fl64 z - z\<bar> \<le> z / 2 ^ 53" using z0 by (rule fl64_error)
  then have "\<bar>fl64 z - z\<bar> \<le> z * u" by (simp add: u_def)
  also have "\<dots> \<le> 103 * u" using z103 u0 by (intro mult_right_mono) simp_all
  finally have e3: "\<bar>fl64 z - z\<bar> \<le> 103 * u" .
  have "fl64 z - (40 + t) = (fl64 z - z) + (y - p) + (p - t)" by (simp add: z_def)
  with e1 e2 e3 have "\<bar>fl64 z - (40 + t)\<bar> \<le> 256 * u" by linarith
  moreover have "256 * u = 1 / 2 ^ 45" by (simp add: u_def)
  ultimately show ?thesis
    by (simp only: z_def y_def p_def x_def t_def q_def)
qed

subsection \<open>Generation orchestrator, interactive mode\<close>

lemma step_progress_fl64:
  "step_progress i n = fl64 (40 + fl64 (of_nat (Suc i) * fl64 (60 / of_nat n)))"
  by (simp add: step_progress_def number_add_def number_mul_def number_div_def)

lemma step_progress_final: "step_progress n (Suc n) = 100"
  unfolding step_progress_fl64 by (rule final_progress_is_100) simp

lemma step_progress_earlier:
  assumes "Suc i < n" and "n < 2 ^ 32"
  shows "step_progress i n < 100"
  unfolding step_progress_fl64 using assms by (intro earlier_progress_below_100) simp_all

lemma step_progress_error:
  assumes "i < n"
  shows "\<bar>step_progress i n - (40 + of_nat (i + 1) * (60 / of_nat n))\<bar> \<le> 1 / 2 ^ 45"
proof -
  from assms have "0 < Suc i" "Suc i \<le> n" by simp_all
  from progress_error [OF this] show ?thesis
    unfolding step_progress_fl64 by simp
qed

lemma step_progress_three:
  "step_progress 0 3 = 60" "step_progress 1 3 = 80" "step_progress (Suc 0) 3 = 80"
  "step_progress 2 3 = 100"
  by code_simp+

lemma step_progress_seven:
  "step_progress 0 7 = 3417910431486537 / 70368744177664"
  "step_progress 1 7 = 2010535547933257 / 35184372088832"
  "step_progress (Suc 0) 7 = 2010535547933257 / 35184372088832"
  "step_progress 2 7 = 1156057940061623 / 17592186044416"
  "step_progress 3 7 = 1306848106156617 / 17592186044416"
  "step_progress 4 7 = 2915276544503223 / 35184372088832"
  "step_progress 5 7 = 6433713753386423 / 70368744177664"
  "step_progress 6 7 = 100"
  by code_simp+

lemma steps_loop_keeps_content:
  "steps_loop svc totalSteps ss i acc st = (r, st') \<Longrightarrow>
   interactiveLesson st' = interactiveLesson st \<and> currentView st' = currentView st"
proof (induction ss arbitrary: i acc st)
  case Nil
  then show ?case by simp
next
  case (Cons step rest)
  show ?case
  proof (cases "generateIllustration svc i (imagePrompt step)")
    case (Inl e)
    with Cons.prems show ?thesis by (auto simp: Let_def)
  next
    case il: (Inr imageUrl)
    show ?thesis
    proof (cases "generateNarration svc i (explanation step)")
      case (Inl e)
      with il Cons.prems show ?thesis by (auto simp: Let_def)
    next
      case (Inr audio)
      with il Cons.prems have
        "steps_loop svc totalSteps rest (Suc i)
           (acc @ [step\<lparr>step_imageUrl := Some imageUrl, audioData := Some audio\<rparr>])
           (setGenProgress (step_progress i totalSteps)
              (st\<lparr>genStatus := StepIllustration (i + 1), genStatus := StepNarration (i + 1)\<rparr>)) =
         (r, st')"
        by (simp add: Let_def)
      from Cons.IH [OF this] show ?thesis by (simp add: setGenProgress_def)
    qed
  qed
qed

text \<open>The loop over a list is the loop over a prefix, continued over the rest.\<close>

lemma steps_loop_append:
  "steps_loop svc n (xs @ ys) i acc st =
     (case steps_loop svc n xs i acc st of
        (Inl e, st') \<Rightarrow> (Inl e, st')
      | (Inr acc', st') \<Rightarrow> steps_loop svc n ys (i + length xs) acc' st')"
proof (induction xs arbitrary: i acc st)
  case Nil
  show ?case by simp
next
  case (Cons step rest)
  show ?case
    by (auto simp: Let_def Cons.IH split: sum.split prod.split)
qed

lemma steps_loop_landed:
  assumes "\<forall>m<length ss. \<not> isl (generateIllustration svc (i + m) (imagePrompt (ss ! m))) \<and>
                          \<not> isl (generateNarration svc (i + m) (explanation (ss ! m)))"
  shows "\<exists>acc' st'. steps_loop svc n ss i acc st = (Inr acc', st') \<and>
           progress_log st' = progress_log st @ map (\<lambda>j. step_progress j n) [i..<i + length ss] \<and>
           genProgress st' =
             (if ss = [] then genProgress st else step_progress (i + length ss - 1) n)"
  using assms
proof (induction ss arbitrary: i acc st)
  case Nil
  show ?case by simp
next
  case (Cons step rest)
  from Cons.prems have "\<not> isl (generateIllustration svc (i + 0) (imagePrompt ((step # rest) ! 0))) \<and>
      \<not> isl (generateNarration svc (i + 0) (explanation ((step # rest) ! 0)))"
    by blast
  then obtain imageUrl audio where
    il: "generateIllustration svc i (imagePrompt step) = Inr imageUrl"
    and na: "generateNarration svc i (explanation step) = Inr audio"
    by (cases "generateIllustration svc i (imagePrompt step)";
        cases "generateNarration svc i (explanation step)") simp_all
  let ?acc = "acc @ [step\<lparr>step_imageUrl := Some imageUrl, audioData := Some audio\<rparr>]"
  let ?st = "setGenProgress (step_progress i n)
          (st\<lparr>genStatus := StepIllustration (i + 1), genStatus := StepNarration (i + 1)\<rparr>)"
  have unf: "steps_loop svc n (step # rest) i acc st = steps_loop svc n rest (Suc i) ?acc ?st"
    using il na by (simp add: Let_def)
  have "\<forall>m<length rest. \<not> isl (generateIllustration svc (Suc i + m) (imagePrompt (rest ! m))) \<and>
                          \<not> isl (generateNarration svc (Suc i + m) (explanation (rest ! m)))"
  proof (intro allI impI)
    fix m assume "m < length rest"
    then have "Suc m < length (step # rest)" by simp
    with Cons.prems have
      "\<not> isl (generateIllustration svc (i + Suc m) (imagePrompt ((step # rest) ! Suc m))) \<and>
       \<not> isl (generateNarration svc (i + Suc m) (explanation ((step # rest) ! Suc m)))"
      by blast
    then show "\<not> isl (generateIllustration svc (Suc i + m) (imagePrompt (rest ! m))) \<and>
               \<not> isl (generateNarration svc (Suc i + m) (explanation (rest ! m)))"
      by simp
  qed
  from Cons.IH [OF this, of ?acc ?st] obtain acc' st' where
    run: "steps_loop svc n rest (Suc i) ?acc ?st = (Inr acc', st')"
    and lg: "progress_log st' =
             progress_log ?st @ map (\<lambda>j. step_progress j n) [Suc i..<Suc i + length rest]"
    and gp: "genProgress st' =
             (if rest = [] then genProgress ?st else step_progress (Suc i + length rest - 1) n)"
    by blast
  have l0: "progress_log ?st = progress_log st @ [step_progress i n]"
    and g0: "genProgress ?st = step_progress i n"
    by (simp_all add: setGenProgress_def)
  have up: "[i..<i + length (step # rest)] = i # [Suc i..<Suc i + length rest]"
    using upt_conv_Cons [of i "i + length (step # rest)"] by simp
  have "progress_log st' =
        progress_log st @ map (\<lambda>j. step_progress j n) [i..<i + length (step # rest)]"
    unfolding up lg l0 by simp
  moreover have "genProgress st' = step_progress (i + length (step # rest) - 1) n"
    unfolding gp g0 by simp
  ultimately show ?case
    unfolding unf using run by simp
qed

lemma steps_loop_fails_first:
  assumes "isl (generateIllustration svc i (imagePrompt step)) \<or>
           isl (generateNarration svc i (explanation step))"
  shows "\<exists>e st'. steps_loop svc n (step # rest) i acc st = (Inl e, st') \<and>
           progress_log st' = progress_log st \<and> genProgress st' = genProgress st"
proof (cases "generateIllustration svc i (imagePrompt step)")
  case (Inl e)
  then show ?thesis by (simp add: Let_def)
next
  case il: (Inr imageUrl)
  with assms obtain e where "generateNarration svc i (explanation step) = Inl e"
    by (cases "generateNarration svc i (explanation step)") simp_all
  with il show ?thesis by (simp add: Let_def)
qed

lemma landed_prefix:
  assumes "m \<le> length ss" and "\<forall>i<m. step_lands svc ss i"
  shows "\<exists>acc' st'. steps_loop svc n (take m ss) 0 [] st = (Inr acc', st') \<and>
           progress_log st' = progress_log st @ map (\<lambda>j. step_progress j n) [0..<m] \<and>
           genProgress st' = (if m = 0 then genProgress st else step_progress (m - 1) n)"
proof -
  from assms(1) have len: "length (take m ss) = m" by simp
  have "\<forall>j<length (take m ss).
          \<not> isl (generateIllustration svc (0 + j) (imagePrompt (take m ss ! j))) \<and>
          \<not> isl (generateNarration svc (0 + j) (explanation (take m ss ! j)))"
    using assms(2) by (simp add: step_lands_def)
  moreover have "take m ss = [] \<longleftrightarrow> m = 0"
    using assms(1) by auto
  ultimately show ?thesis
    using steps_loop_landed [of "take m ss" svc 0 n "[]" st] unfolding len by auto
qed

text \<open>
  The loop when exactly the first \<open>k\<close> steps land: it ends with an error exactly when \<open>k\<close> is not
  the number of steps, it has published the values of the steps \<open>0, ..., k - 1\<close>, and the
  progress is the last of them.
\<close>

lemma steps_loop_run:
  assumes k: "k \<le> length ss"
    and ok: "\<forall>i<k. step_lands svc ss i"
    and stop: "k < length ss \<longrightarrow> \<not> step_lands svc ss k"
  shows "\<exists>r st'. steps_loop svc n ss 0 [] st = (r, st') \<and> (isl r \<longleftrightarrow> k < length ss) \<and>
           progress_log st' = progress_log st @ map (\<lambda>j. step_progress j n) [0..<k] \<and>
           genProgress st' = (if k = 0 then genProgress st else step_progress (k - 1) n)"
proof -
  from landed_prefix [OF k ok, of n st] obtain acc' st1 where
    pre: "steps_loop svc n (take k ss) 0 [] st = (Inr acc', st1)"
    and lg: "progress_log st1 = progress_log st @ map (\<lambda>j. step_progress j n) [0..<k]"
    and gp: "genProgress st1 = (if k = 0 then genProgress st else step_progress (k - 1) n)"
    by blast
  show ?thesis
  proof (cases "k = length ss")
    case True
    with pre lg gp show ?thesis by simp
  next
    case False
    with k have kl: "k < length ss" by simp
    then have dr: "drop k ss = ss ! k # drop (Suc k) ss"
      by (simp add: Cons_nth_drop_Suc)
    from kl stop have "isl (generateIllustration svc k (imagePrompt (ss ! k))) \<or>
        isl (generateNarration svc k (explanation (ss ! k)))"
      by (auto simp: step_lands_def)
    from steps_loop_fails_first [OF this, of n "drop (Suc k) ss" acc' st1] obtain e st2 where
      fl: "steps_loop svc n (ss ! k # drop (Suc k) ss) k acc' st1 = (Inl e, st2)"
      and lg2: "progress_log st2 = progress_log st1"
      and gp2: "genProgress st2 = genProgress st1"
      by blast
    have "steps_loop svc n (take k ss @ drop k ss) 0 [] st = (Inl e, st2)"
      unfolding steps_loop_append pre dr using fl k by simp
    then have "steps_loop svc n ss 0 [] st = (Inl e, st2)" by simp
    with kl lg gp lg2 gp2 show ?thesis by simp
  qed
qed

lemma assets_land_iff: "assets_land svc ss \<longleftrightarrow> (\<forall>i<length ss. step_lands svc ss i)"
  by (simp add: assets_land_def step_lands_def)

lemma first_failure:
  assumes "\<not> assets_land svc ss"
  shows "\<exists>k<length ss. (\<forall>i<k. step_lands svc ss i) \<and> \<not> step_lands svc ss k"
proof -
  let ?P = "\<lambda>i. i < length ss \<and> \<not> step_lands svc ss i"
  from assms have ex: "\<exists>i. ?P i" by (auto simp: assets_land_iff)
  define k where "k = (LEAST i. ?P i)"
  from ex have pk: "?P k" unfolding k_def by (rule LeastI_ex)
  have "step_lands svc ss i" if "i < k" for i
  proof (rule ccontr)
    assume "\<not> step_lands svc ss i"
    with that pk have "?P i" by simp
    then have "k \<le> i" unfolding k_def by (rule Least_le)
    with that show False by simp
  qed
  with pk show ?thesis by blast
qed

text \<open>
  A whole run of \<^verbatim>\<open>startInteractiveGeneration\<close> whose structure request returns and in which
  exactly the first \<open>k\<close> steps land.
\<close>

lemma startInteractiveGeneration_run:
  assumes tp: "interactiveTopic st \<noteq> []"
    and ls: "generateInteractiveLessonStructure svc (interactiveTopic st) = Inr lesson"
    and k: "k \<le> length (steps lesson)"
    and ok: "\<forall>i<k. step_lands svc (steps lesson) i"
    and stop: "k < length (steps lesson) \<longrightarrow> \<not> step_lands svc (steps lesson) k"
  shows "progress_log (startInteractiveGeneration svc st) =
           progress_log st @ [10, 40] @
             map (\<lambda>i. step_progress i (length (steps lesson))) [0..<k] @ [0] \<and>
         genProgress (startInteractiveGeneration svc st) = 0 \<and>
         (if k = length (steps lesson)
          then (\<exists>ss. interactiveLesson (startInteractiveGeneration svc st) =
                       Some (lesson\<lparr>steps := ss\<rparr>)) \<and>
               currentView (startInteractiveGeneration svc st) = Interactive_play
          else interactiveLesson (startInteractiveGeneration svc st) = interactiveLesson st \<and>
               currentView (startInteractiveGeneration svc st) = currentView st)"
proof -
  let ?n = "length (steps lesson)"
  let ?st0 = "generation_started st"
  let ?st1 = "structure_arrived ?st0"
  from steps_loop_run [OF k ok stop, of ?n ?st1] obtain r st2 where
    run: "steps_loop svc ?n (steps lesson) 0 [] ?st1 = (r, st2)"
    and er: "isl r \<longleftrightarrow> k < ?n"
    and lg: "progress_log st2 = progress_log ?st1 @ map (\<lambda>j. step_progress j ?n) [0..<k]"
    by blast
  have tp0: "interactiveTopic ?st0 = interactiveTopic st"
    by (simp add: generation_started_def setGenProgress_def)
  have l1: "progress_log ?st1 = progress_log st @ [10, 40]"
    by (simp add: generation_started_def structure_arrived_def setGenProgress_def)
  have k1: "interactiveLesson ?st1 = interactiveLesson st" "currentView ?st1 = currentView st"
    by (simp_all add: generation_started_def structure_arrived_def setGenProgress_def)
  note keep = steps_loop_keeps_content [OF run]
  have tr: "startInteractiveGeneration_try svc ?st0 =
      (case r of Inl e \<Rightarrow> st2
       | Inr stepsWithAssets \<Rightarrow>
           st2\<lparr>interactiveLesson := Some (lesson\<lparr>steps := stepsWithAssets\<rparr>),
               currentView := Interactive_play\<rparr>)"
    using ls run by (simp add: startInteractiveGeneration_try_def tp0)
  have res: "startInteractiveGeneration svc st =
      (setGenProgress 0 ((startInteractiveGeneration_try svc ?st0)\<lparr>isGeneratingInteractive := False\<rparr>))
        \<lparr>genStatus := NoStatus\<rparr>"
    using tp by (simp add: startInteractiveGeneration_def Let_def)
  have log: "progress_log (startInteractiveGeneration svc st) =
      progress_log st @ [10, 40] @ map (\<lambda>i. step_progress i ?n) [0..<k] @ [0]"
    unfolding res tr using lg l1
    by (cases r) (simp_all add: setGenProgress_def)
  have fin: "genProgress (startInteractiveGeneration svc st) = 0"
    unfolding res by (simp add: setGenProgress_def)
  have surf: "if k = ?n
            then (\<exists>ss. interactiveLesson (startInteractiveGeneration svc st) =
                         Some (lesson\<lparr>steps := ss\<rparr>)) \<and>
                 currentView (startInteractiveGeneration svc st) = Interactive_play
            else interactiveLesson (startInteractiveGeneration svc st) = interactiveLesson st \<and>
                 currentView (startInteractiveGeneration svc st) = currentView st"
  proof (cases r)
    case (Inl e)
    with er have "k \<noteq> ?n" by simp
    moreover from Inl keep k1
    have "interactiveLesson (startInteractiveGeneration svc st) = interactiveLesson st \<and>
          currentView (startInteractiveGeneration svc st) = currentView st"
      unfolding res tr by (simp add: setGenProgress_def)
    ultimately show ?thesis by simp
  next
    case (Inr ss)
    with er k have "k = ?n" by simp
    moreover from Inr
    have "interactiveLesson (startInteractiveGeneration svc st) = Some (lesson\<lparr>steps := ss\<rparr>) \<and>
          currentView (startInteractiveGeneration svc st) = Interactive_play"
      unfolding res tr by (simp add: setGenProgress_def)
    ultimately show ?thesis by auto
  qed
  from log fin surf show ?thesis by blast
qed

lemma startInteractiveGeneration_failure:
  assumes tp: "interactiveTopic st \<noteq> []"
    and ls: "generateInteractiveLessonStructure svc (interactiveTopic st) = Inr lesson"
    and nl: "\<not> assets_land svc (steps lesson)"
  shows "interactiveLesson (startInteractiveGeneration svc st) = interactiveLesson st \<and>
         currentView (startInteractiveGeneration svc st) = currentView st"
proof -
  from first_failure [OF nl] obtain k where
    k: "k < length (steps lesson)"
    and ok: "\<forall>i<k. step_lands svc (steps lesson) i"
    and stop: "\<not> step_lands svc (steps lesson) k"
    by blast
  from k have "k \<le> length (steps lesson)" by simp
  from startInteractiveGeneration_run [OF tp ls this ok] stop k show ?thesis
    by simp
qed

text \<open>
  C4 as stated fails for a lesson of seven steps: \<open>60 / 7\<close> is not a double, and the value
  published after the first step is the double nearest to \<open>340 / 7\<close>, not \<open>340 / 7\<close>; only the
  value of the last step, 100, is the value of the exact formula.
\<close>

theorem progress_seven_steps_counterexample:
  "progress_log (startInteractiveGeneration seven_step_services example_app) =
     [10, 40,
      3417910431486537 / 70368744177664, 2010535547933257 / 35184372088832,
      1156057940061623 / 17592186044416, 1306848106156617 / 17592186044416,
      2915276544503223 / 35184372088832, 6433713753386423 / 70368744177664,
      100, 0] \<and>
   genProgress (snd (steps_loop seven_step_services 7
       (take 1 (steps (seven_step_lesson ''topic''))) 0 []
       (structure_arrived (generation_started example_app)))) =
     3417910431486537 / 70368744177664 \<and>
   (3417910431486537 / 70368744177664 :: rat) \<noteq> 40 + 1 * (60 / 7)"
proof -
  let ?lesson = "seven_step_lesson ''topic''"
  have tp: "interactiveTopic example_app \<noteq> []"
    by (simp add: example_app_def)
  have ls: "generateInteractiveLessonStructure seven_step_services (interactiveTopic example_app) =
       Inr ?lesson"
    by (simp add: example_app_def seven_step_services_def)
  have n: "length (steps ?lesson) = 7" by (simp add: seven_step_lesson_def)
  then have k: "7 \<le> length (steps ?lesson)" by simp
  have ok: "\<forall>i<7. step_lands seven_step_services (steps ?lesson) i"
    by (simp add: step_lands_def seven_step_services_def)
  have stop: "7 < length (steps ?lesson) \<longrightarrow> \<not> step_lands seven_step_services (steps ?lesson) 7"
    using n by simp
  have up: "[0..<7] = [0, 1, 2, 3, 4, 5, 6]" by (simp add: upt_rec)
  have e: "progress_log example_app = []" by (simp add: example_app_def)
  from startInteractiveGeneration_run [OF tp ls k ok stop]
  have "progress_log (startInteractiveGeneration seven_step_services example_app) =
      progress_log example_app @ [10, 40] @ map (\<lambda>i. step_progress i 7) [0..<7] @ [0]"
    unfolding n by (rule conjunct1)
  then have one: "progress_log (startInteractiveGeneration seven_step_services example_app) =
     [10, 40,
      3417910431486537 / 70368744177664, 2010535547933257 / 35184372088832,
      1156057940061623 / 17592186044416, 1306848106156617 / 17592186044416,
      2915276544503223 / 35184372088832, 6433713753386423 / 70368744177664,
      100, 0]"
    unfolding up e by (simp add: step_progress_seven)
  have k1: "1 \<le> length (steps ?lesson)" using n by simp
  have ok1: "\<forall>i<1. step_lands seven_step_services (steps ?lesson) i"
    by (simp add: step_lands_def seven_step_services_def)
  from landed_prefix [OF k1 ok1, of 7 "structure_arrived (generation_started example_app)"]
  have two: "genProgress (snd (steps_loop seven_step_services 7 (take 1 (steps ?lesson)) 0 []
       (structure_arrived (generation_started example_app)))) =
     3417910431486537 / 70368744177664"
    by (auto simp: step_progress_seven)
  have three: "(3417910431486537 / 70368744177664 :: rat) \<noteq> 40 + 1 * (60 / 7)" by simp
  from one two three show ?thesis by (intro conjI)
qed

text \<open>
  C4, amended. For every interactive generation whose structure request returns a lesson
  with \<open>n\<close> steps, of which the first \<open>k\<close> land and, unless \<open>k = n\<close>, the next one fails:
  \<^verbatim>\<open>genProgress\<close> is 10 when the structure request is issued and 40 when the loop over the
  steps is entered; when the assets of step \<open>i + 1\<close> have landed (\<open>i < k\<close>) it is the value of
  \<^verbatim>\<open>40 + (i + 1) * (60 / n)\<close> in double arithmetic, which lies within \<open>2^-45\<close> of the exact
  \<open>40 + (i + 1) * (60 / n)\<close> and is 100 exactly for the final step (an array has fewer than
  \<open>2^32\<close> elements). The values passed to \<^verbatim>\<open>setGenProgress\<close> are, in order, 10, 40, these \<open>k\<close>
  values, and the 0 of the \<^verbatim>\<open>finally\<close> block, which follows the last value with no request in
  between; after the run \<^verbatim>\<open>genProgress\<close> is 0. (For three steps: 10, 40, 60, 80, 100, 0.)
  The state in which the assets of step \<open>i + 1\<close> have landed is the state that the loop
  reaches on the first \<open>i + 1\<close> steps; the run continues from it (lemma \<open>steps_loop_append\<close>).
\<close>

theorem progress_follows_formula:
  assumes "interactiveTopic st \<noteq> []"
    and "generateInteractiveLessonStructure svc (interactiveTopic st) = Inr lesson"
    and "n = length (steps lesson)"
    and "k \<le> n"
    and "\<forall>i<k. step_lands svc (steps lesson) i"
    and "k < n \<longrightarrow> \<not> step_lands svc (steps lesson) k"
  shows "genProgress (generation_started st) = 10 \<and>
         genProgress (structure_arrived (generation_started st)) = 40 \<and>
         (\<forall>i<k. genProgress (snd (steps_loop svc n (take (Suc i) (steps lesson)) 0 []
                                     (structure_arrived (generation_started st)))) =
                   step_progress i n \<and>
                 \<bar>step_progress i n - (40 + of_nat (i + 1) * (60 / of_nat n))\<bar> \<le> 1 / 2 ^ 45 \<and>
                 (n < 2 ^ 32 \<longrightarrow> (step_progress i n = 100 \<longleftrightarrow> i + 1 = n))) \<and>
         progress_log (startInteractiveGeneration svc st) =
           progress_log st @ [10, 40] @ map (\<lambda>i. step_progress i n) [0..<k] @ [0] \<and>
         genProgress (startInteractiveGeneration svc st) = 0"
proof -
  let ?st1 = "structure_arrived (generation_started st)"
  note n = assms(3)
  from assms(4) have k: "k \<le> length (steps lesson)" by (simp add: n)
  from assms(6) have stop: "k < length (steps lesson) \<longrightarrow> \<not> step_lands svc (steps lesson) k"
    by (simp add: n)
  have a: "genProgress (generation_started st) = 10"
    by (simp add: generation_started_def setGenProgress_def)
  have b: "genProgress ?st1 = 40"
    by (simp add: structure_arrived_def setGenProgress_def)
  have c: "genProgress (snd (steps_loop svc n (take (Suc i) (steps lesson)) 0 [] ?st1)) =
             step_progress i n \<and>
           \<bar>step_progress i n - (40 + of_nat (i + 1) * (60 / of_nat n))\<bar> \<le> 1 / 2 ^ 45 \<and>
           (n < 2 ^ 32 \<longrightarrow> (step_progress i n = 100 \<longleftrightarrow> i + 1 = n))" if i: "i < k" for i
  proof (intro conjI impI)
    from i k have le: "Suc i \<le> length (steps lesson)" by simp
    from i assms(5) have "\<forall>j<Suc i. step_lands svc (steps lesson) j" by simp
    from landed_prefix [OF le this, of n ?st1]
    show "genProgress (snd (steps_loop svc n (take (Suc i) (steps lesson)) 0 [] ?st1)) =
          step_progress i n"
      by auto
    from i assms(4) have "i < n" by simp
    then show "\<bar>step_progress i n - (40 + of_nat (i + 1) * (60 / of_nat n))\<bar> \<le> 1 / 2 ^ 45"
      by (rule step_progress_error)
    assume b32: "n < 2 ^ 32"
    show "step_progress i n = 100 \<longleftrightarrow> i + 1 = n"
    proof (cases "i + 1 = n")
      case True
      then have "n = Suc i" by simp
      then have "step_progress i n = 100" by (simp only: step_progress_final)
      with True show ?thesis by simp
    next
      case False
      with \<open>i < n\<close> have "Suc i < n" by simp
      from step_progress_earlier [OF this b32] False show ?thesis by simp
    qed
  qed
  from startInteractiveGeneration_run [OF assms(1,2) k assms(5) [unfolded n] stop]
  have d: "progress_log (startInteractiveGeneration svc st) =
           progress_log st @ [10, 40] @ map (\<lambda>i. step_progress i n) [0..<k] @ [0]"
    and e: "genProgress (startInteractiveGeneration svc st) = 0"
    unfolding n by simp_all
  from a b c d e show ?thesis by blast
qed

theorem progress_follows_formula_witness:
  "progress_log (startInteractiveGeneration (example_services 3) example_app) =
     [10, 40, 60, 80, 100, 0] \<and>
   genProgress (snd (steps_loop (example_services 3) 3
       (take 3 [example_step ''s1'', example_step ''s2'', example_step ''s3'']) 0 []
       (structure_arrived (generation_started example_app)))) = 100 \<and>
   genProgress (startInteractiveGeneration (example_services 3) example_app) = 0 \<and>
   progress_log (startInteractiveGeneration (example_services 2) example_app) =
     [10, 40, 60, 80, 0] \<and>
   genProgress (snd (steps_loop (example_services 2) 3
       (take 2 [example_step ''s1'', example_step ''s2'', example_step ''s3'']) 0 []
       (structure_arrived (generation_started example_app)))) = 80"
proof -
  let ?ss = "[example_step ''s1'', example_step ''s2'', example_step ''s3'']"
  let ?lesson = "\<lparr>il_id = ''i'', topic = ''topic'', steps = ?ss, il_quiz = [example_question]\<rparr>"
  have tp: "interactiveTopic example_app \<noteq> []"
    by (simp add: example_app_def)
  have ls: "generateInteractiveLessonStructure (example_services m) (interactiveTopic example_app) =
       Inr ?lesson" for m
    by (simp add: example_app_def example_services_def)
  have n: "3 = length (steps ?lesson)" by simp
  have ok3: "\<forall>i<3. step_lands (example_services 3) (steps ?lesson) i"
    by (simp add: step_lands_def example_services_def)
  have ok2: "\<forall>i<2. step_lands (example_services 2) (steps ?lesson) i"
    by (simp add: step_lands_def example_services_def)
  have stop2: "(2::nat) < 3 \<longrightarrow> \<not> step_lands (example_services 2) (steps ?lesson) 2"
    by (simp add: step_lands_def example_services_def)
  have e: "progress_log example_app = []" by (simp add: example_app_def)
  have up: "[0..<3] = [0, 1, 2]" "[0..<2] = [0, 1]" by (simp_all add: upt_rec)
  note t3 = progress_follows_formula [OF tp ls n, of 3, OF _ ok3]
  note t2 = progress_follows_formula [OF tp ls n, of 2, OF _ ok2 stop2]
  from t3 have "progress_log (startInteractiveGeneration (example_services 3) example_app) =
      progress_log example_app @ [10, 40] @ map (\<lambda>i. step_progress i 3) [0..<3] @ [0]"
    by simp
  then have one: "progress_log (startInteractiveGeneration (example_services 3) example_app) =
      [10, 40, 60, 80, 100, 0]"
    unfolding up e by (simp add: step_progress_three)
  from t3 have "\<forall>i<3. genProgress (snd (steps_loop (example_services 3) 3
       (take (Suc i) (steps ?lesson)) 0 []
       (structure_arrived (generation_started example_app)))) = step_progress i 3"
    by simp
  then have "genProgress (snd (steps_loop (example_services 3) 3
       (take (Suc 2) (steps ?lesson)) 0 []
       (structure_arrived (generation_started example_app)))) = step_progress 2 3"
    by (elim allE [of _ 2]) simp
  then have two: "genProgress (snd (steps_loop (example_services 3) 3 (take 3 ?ss) 0 []
       (structure_arrived (generation_started example_app)))) = 100"
    by (simp add: step_progress_three)
  from t3 have three: "genProgress (startInteractiveGeneration (example_services 3) example_app) = 0"
    by simp
  from t2 have "progress_log (startInteractiveGeneration (example_services 2) example_app) =
      progress_log example_app @ [10, 40] @ map (\<lambda>i. step_progress i 3) [0..<2] @ [0]"
    by simp
  then have four: "progress_log (startInteractiveGeneration (example_services 2) example_app) =
      [10, 40, 60, 80, 0]"
    unfolding up e by (simp add: step_progress_three)
  from t2 have "\<forall>i<2. genProgress (snd (steps_loop (example_services 2) 3
       (take (Suc i) (steps ?lesson)) 0 []
       (structure_arrived (generation_started example_app)))) = step_progress i 3"
    by simp
  then have "genProgress (snd (steps_loop (example_services 2) 3
       (take (Suc 1) (steps ?lesson)) 0 []
       (structure_arrived (generation_started example_app)))) = step_progress 1 3"
    by (elim allE [of _ 1]) simp
  then have five: "genProgress (snd (steps_loop (example_services 2) 3 (take 2 ?ss) 0 []
       (structure_arrived (generation_started example_app)))) = 80"
    by (simp add: step_progress_three)
  from one two three four five show ?thesis by (intro conjI)
qed

subsection \<open>Generation orchestrator, course mode\<close>

lemma generateLessonBody_try_fails_iff:
  "generateLessonBody_try svc req = Inl e \<longleftrightarrow>
     (if lesson_type (req_lesson req) = Video
      then generateCourseTeaser svc
             (''An educational video about '' @ lesson_title (req_lesson req) @
              '' for the course '' @ course_title (req_course req)) = Inl e
      else if lesson_type (req_lesson req) = Quiz
      then generateLessonContent_quiz svc (lesson_title (req_lesson req)) = Inl e
      else generateLessonContent_text svc (lesson_title (req_lesson req)) = Inl e)"
  by (simp add: generateLessonBody_try_def Let_def split: sum.splits)

lemma settle_failure_keeps_course:
  "generateLessonBody_try svc req = Inl e \<Longrightarrow>
   bs_course (generateLessonBody_settle svc st req) = bs_course st"
  by (simp add: generateLessonBody_settle_def Let_def)

lemma call_keeps_course: "bs_course (generateLessonBody_call st moduleId lessonId) = bs_course st"
  by (simp add: generateLessonBody_call_def split: option.splits)

lemma settle_clears_id:
  "generatingLessonIds (generateLessonBody_settle svc st req) =
     generatingLessonIds st - {req_lessonId req} \<and>
   loadingStatus (generateLessonBody_settle svc st req) = [] \<and>
   in_flight (generateLessonBody_settle svc st req) = remove1 req (in_flight st)"
  by (simp add: generateLessonBody_settle_def Let_def split: sum.splits)

lemma call_issues_request:
  assumes "bs_course st = Some c" and "find_lesson c moduleId lessonId = Some lesson"
  shows "in_flight (generateLessonBody_call st moduleId lessonId) =
           in_flight st @ [\<lparr>req_course = c, req_moduleId = moduleId, req_lessonId = lessonId,
                            req_lesson = lesson\<rparr>] \<and>
         generatingLessonIds (generateLessonBody_call st moduleId lessonId) =
           insert lessonId (generatingLessonIds st)"
  using assms by (simp add: generateLessonBody_call_def)

text \<open>
  C5. A failed generation attempt leaves the content as it was. Course mode: when the
  \<^verbatim>\<open>try\<close> block of \<^verbatim>\<open>generateLessonBody\<close> fails, that is, when the service call for the
  lesson's type throws, the course is the same before and after, for the settling of a
  suspended call in any state and for a whole call run to its end. Interactive mode: when the
  structure request throws, or some step's illustration or narration request throws, the
  stored interactive lesson and the current view are the same before and after
  \<^verbatim>\<open>startInteractiveGeneration\<close>: no lesson, partial or whole, is surfaced.
\<close>

theorem failed_generation_keeps_content:
  "(generateLessonBody_try svc req = Inl e \<longrightarrow>
      bs_course (generateLessonBody_settle svc st req) = bs_course st) \<and>
   (bs_course st = Some c \<and> find_lesson c moduleId lessonId = Some lesson \<and>
    generateLessonBody_try svc
      \<lparr>req_course = c, req_moduleId = moduleId, req_lessonId = lessonId, req_lesson = lesson\<rparr> =
      Inl e \<longrightarrow>
      bs_course (generateLessonBody svc st moduleId lessonId) = bs_course st) \<and>
   (generateInteractiveLessonStructure svc (interactiveTopic ast) = Inl e \<or>
    (\<exists>lesson'. generateInteractiveLessonStructure svc (interactiveTopic ast) = Inr lesson' \<and>
               \<not> assets_land svc (steps lesson')) \<longrightarrow>
      interactiveLesson (startInteractiveGeneration svc ast) = interactiveLesson ast \<and>
      currentView (startInteractiveGeneration svc ast) = currentView ast)"
proof -
  have one: "bs_course (generateLessonBody_settle svc st req) = bs_course st"
    if "generateLessonBody_try svc req = Inl e"
    using that by (rule settle_failure_keeps_course)
  have two: "bs_course (generateLessonBody svc st moduleId lessonId) = bs_course st"
    if a: "bs_course st = Some c \<and> find_lesson c moduleId lessonId = Some lesson \<and>
      generateLessonBody_try svc
        \<lparr>req_course = c, req_moduleId = moduleId, req_lessonId = lessonId, req_lesson = lesson\<rparr> =
        Inl e"
  proof -
    from a have "generateLessonBody svc st moduleId lessonId =
        generateLessonBody_settle svc (generateLessonBody_call st moduleId lessonId)
          \<lparr>req_course = c, req_moduleId = moduleId, req_lessonId = lessonId, req_lesson = lesson\<rparr>"
      by (simp add: generateLessonBody_def)
    with a show ?thesis
      by (simp add: settle_failure_keeps_course call_keeps_course)
  qed
  have three: "interactiveLesson (startInteractiveGeneration svc ast) = interactiveLesson ast \<and>
      currentView (startInteractiveGeneration svc ast) = currentView ast"
    if f: "generateInteractiveLessonStructure svc (interactiveTopic ast) = Inl e \<or>
      (\<exists>lesson'. generateInteractiveLessonStructure svc (interactiveTopic ast) = Inr lesson' \<and>
                 \<not> assets_land svc (steps lesson'))"
  proof (cases "interactiveTopic ast = []")
    case True
    then show ?thesis by (simp add: startInteractiveGeneration_def)
  next
    case tp: False
    from f show ?thesis
    proof
      assume "generateInteractiveLessonStructure svc (interactiveTopic ast) = Inl e"
      with tp show ?thesis
        by (simp add: startInteractiveGeneration_def startInteractiveGeneration_try_def
            generation_started_def setGenProgress_def Let_def)
    next
      assume "\<exists>lesson'. generateInteractiveLessonStructure svc (interactiveTopic ast) = Inr lesson' \<and>
               \<not> assets_land svc (steps lesson')"
      then obtain lesson' where
        ls: "generateInteractiveLessonStructure svc (interactiveTopic ast) = Inr lesson'"
        and nl: "\<not> assets_land svc (steps lesson')" by blast
      from tp ls nl show ?thesis
        by (rule startInteractiveGeneration_failure)
    qed
  qed
  from one two three show ?thesis by blast
qed

theorem failed_generation_keeps_content_witness:
  "bs_course (generateLessonBody failing_services
      (example_builder (example_lesson Quiz None (Some [example_question]))) ''m1'' ''l1'') =
     Some (example_course (example_lesson Quiz None (Some [example_question]))) \<and>
   interactiveLesson (startInteractiveGeneration (example_services 2) example_app) = None \<and>
   currentView (startInteractiveGeneration (example_services 2) example_app) = Interactive_gen"
proof -
  let ?l = "example_lesson Quiz None (Some [example_question])"
  let ?st = "example_builder ?l"
  let ?req = "\<lparr>req_course = example_course ?l, req_moduleId = ''m1'', req_lessonId = ''l1'',
               req_lesson = ?l\<rparr>"
  let ?lesson = "\<lparr>il_id = ''i'', topic = ''topic'',
             steps = [example_step ''s1'', example_step ''s2'', example_step ''s3''],
             il_quiz = [example_question]\<rparr>"
  have c: "bs_course ?st = Some (example_course ?l)"
    by (simp add: example_builder_def)
  have fl: "find_lesson (example_course ?l) ''m1'' ''l1'' = Some ?l"
    by (simp add: find_lesson_def example_course_def example_lesson_def)
  have tr: "generateLessonBody_try failing_services ?req = Inl ServiceError"
    by (simp add: generateLessonBody_try_def failing_services_def example_lesson_def Let_def)
  have ls: "generateInteractiveLessonStructure (example_services 2) (interactiveTopic example_app) =
       Inr ?lesson"
    by (simp add: example_app_def example_services_def)
  have nl: "\<not> assets_land (example_services 2) (steps ?lesson)"
  proof
    assume "assets_land (example_services 2) (steps ?lesson)"
    then have "\<not> isl (generateNarration (example_services 2) 2 (explanation (steps ?lesson ! 2)))"
      unfolding assets_land_def by (elim allE [of _ 2]) simp
    then show False by (simp add: example_services_def)
  qed
  have e: "interactiveLesson example_app = None" "currentView example_app = Interactive_gen"
    by (simp_all add: example_app_def)
  note t = failed_generation_keeps_content
    [of failing_services ?req ServiceError ?st "example_course ?l" "''m1''" "''l1''" ?l example_app]
  from t c fl tr have "bs_course (generateLessonBody failing_services ?st ''m1'' ''l1'') = bs_course ?st"
    by blast
  moreover
  note t' = failed_generation_keeps_content
    [of "example_services 2" ?req ServiceError ?st "example_course ?l" "''m1''" "''l1''" ?l example_app]
  from t' ls nl have
    "interactiveLesson (startInteractiveGeneration (example_services 2) example_app) =
       interactiveLesson example_app \<and>
     currentView (startInteractiveGeneration (example_services 2) example_app) =
       currentView example_app"
    by blast
  ultimately show ?thesis using c e by simp
qed

text \<open>
  C3 at the failing input. A video lesson \<open>l1\<close> has a video, so the editor shows its
  ``Regenerate Clip'' button. The first click calls \<^verbatim>\<open>generateLessonBody\<close>: \<open>l1\<close> enters the
  in-flight set and one request is in flight. While \<open>l1\<close> is in the set the sidebar button
  is disabled (a click changes nothing), but ``Regenerate Clip'' is not: a second click
  issues a second request for \<open>l1\<close>. When one of the two settles (here by failure), \<open>l1\<close>
  leaves the set although a request for it is still in flight, and the sidebar button then
  starts another one.
\<close>

theorem regenerate_clip_second_request:
  "''l1'' \<in> generatingLessonIds
      (regenerate_clip_click (example_builder (example_lesson Video (Some ''u'') None))
         ''m1'' ''l1'') \<and>
   length (requests_for
      (regenerate_clip_click (example_builder (example_lesson Video (Some ''u'') None))
         ''m1'' ''l1'') ''l1'') = 1 \<and>
   sidebar_generate_click
      (regenerate_clip_click (example_builder (example_lesson Video (Some ''u'') None))
         ''m1'' ''l1'') ''m1'' ''l1'' =
     regenerate_clip_click (example_builder (example_lesson Video (Some ''u'') None))
       ''m1'' ''l1'' \<and>
   length (requests_for
      (regenerate_clip_click
         (regenerate_clip_click (example_builder (example_lesson Video (Some ''u'') None))
            ''m1'' ''l1'') ''m1'' ''l1'') ''l1'') = 2 \<and>
   ''l1'' \<notin> generatingLessonIds
      (generateLessonBody_settle failing_services
         (regenerate_clip_click
            (regenerate_clip_click (example_builder (example_lesson Video (Some ''u'') None))
               ''m1'' ''l1'') ''m1'' ''l1'')
         \<lparr>req_course = example_course (example_lesson Video (Some ''u'') None),
          req_moduleId = ''m1'', req_lessonId = ''l1'',
          req_lesson = example_lesson Video (Some ''u'') None\<rparr>) \<and>
   length (requests_for
      (generateLessonBody_settle failing_services
         (regenerate_clip_click
            (regenerate_clip_click (example_builder (example_lesson Video (Some ''u'') None))
               ''m1'' ''l1'') ''m1'' ''l1'')
         \<lparr>req_course = example_course (example_lesson Video (Some ''u'') None),
          req_moduleId = ''m1'', req_lessonId = ''l1'',
          req_lesson = example_lesson Video (Some ''u'') None\<rparr>) ''l1'') = 1 \<and>
   length (requests_for
      (sidebar_generate_click
         (generateLessonBody_settle failing_services
            (regenerate_clip_click
               (regenerate_clip_click (example_builder (example_lesson Video (Some ''u'') None))
                  ''m1'' ''l1'') ''m1'' ''l1'')
            \<lparr>req_course = example_course (example_lesson Video (Some ''u'') None),
             req_moduleId = ''m1'', req_lessonId = ''l1'',
             req_lesson = example_lesson Video (Some ''u'') None\<rparr>)
         ''m1'' ''l1'') ''l1'') = 2"
proof -
  let ?l = "example_lesson Video (Some ''u'') None"
  let ?c = "example_course ?l"
  let ?st = "example_builder ?l"
  let ?req = "\<lparr>req_course = ?c, req_moduleId = ''m1'', req_lessonId = ''l1'', req_lesson = ?l\<rparr>"
  let ?busy = "''AI is crafting: L...''"
  let ?s1 = "\<lparr>bs_course = Some ?c, generatingLessonIds = {''l1''}, loadingStatus = ?busy,
              in_flight = [?req]\<rparr>"
  let ?s2 = "\<lparr>bs_course = Some ?c, generatingLessonIds = {''l1''}, loadingStatus = ?busy,
              in_flight = [?req, ?req]\<rparr>"
  let ?s3 = "\<lparr>bs_course = Some ?c, generatingLessonIds = {}, loadingStatus = [],
              in_flight = [?req]\<rparr>"
  have fl: "find_lesson ?c ''m1'' ''l1'' = Some ?l"
    by (simp add: find_lesson_def example_course_def example_lesson_def)
  have l: "lesson_title ?l = ''L''" "lesson_type ?l = Video" "videoUrl ?l = Some ''u''"
    "lesson_id ?l = ''l1''"
    by (simp_all add: example_lesson_def)
  have r1: "regenerate_clip_click ?st ''m1'' ''l1'' = ?s1"
    by (simp add: regenerate_clip_click_def generateLessonBody_call_def example_builder_def fl l)
  have r2: "regenerate_clip_click ?s1 ''m1'' ''l1'' = ?s2"
    by (simp add: regenerate_clip_click_def generateLessonBody_call_def fl l)
  have tr: "generateLessonBody_try failing_services ?req = Inl ServiceError"
    by (simp add: generateLessonBody_try_def failing_services_def l Let_def)
  have r3: "generateLessonBody_settle failing_services ?s2 ?req = ?s3"
    by (simp add: generateLessonBody_settle_def tr Let_def)
  have r4: "sidebar_generate_click ?s3 ''m1'' ''l1'' = ?s2"
    by (simp add: sidebar_generate_click_def generateLessonBody_call_def fl l)
  have g: "sidebar_generate_click ?s1 ''m1'' ''l1'' = ?s1"
    by (simp add: sidebar_generate_click_def)
  have n1: "length (requests_for ?s1 ''l1'') = 1" "length (requests_for ?s2 ''l1'') = 2"
    "length (requests_for ?s3 ''l1'') = 1"
    by (simp_all add: requests_for_def)
  have m: "''l1'' \<in> generatingLessonIds ?s1" "''l1'' \<notin> generatingLessonIds ?s3"
    by simp_all
  show ?thesis
    unfolding r1 r2 r3 r4 g using n1 m by (simp only: simp_thms)
qed

end
